theory Spec2Isabelle
  imports Complex_Main "HOL-Library.Word" "HOL-Library.Log_Nat" "HOL-Library.Signed_Division"
begin

section \<open>Platform: binary floating point and machine integers\<close>

text \<open>
  The program is modelled as compiled for x86-64 Linux (LP64, System V ABI):
  \<^item> \<open>unsigned long\<close> is a 64-bit word (\<open>+\<close> wraps), \<open>long\<close> is a 64-bit signed integer;
  \<^item> \<open>double\<close> is IEEE binary64 (53-bit significand);
  \<^item> \<open>long double\<close> is the x87 extended format (64-bit significand).

  A finite floating-point value is the real number it denotes. Every operation
  computes the exact result and rounds it to the significand width of its type,
  to nearest, ties to even (\<open>round_to\<close>). Exponent ranges are not modelled: \<open>atof\<close>
  below only yields values far inside the range of \<open>double\<close>, and no product,
  difference or comparison of the program can leave the range of \<open>long double\<close>
  from there. Infinities, NaN and the sign of zero are outside the model.
\<close>

definition binade :: "real \<Rightarrow> int" where
  \<comment> \<open>the exponent \<open>e\<close> with \<open>2 powi e \<le> \<bar>x\<bar> < 2 powi (e + 1)\<close>, for \<open>x \<noteq> 0\<close>\<close>
  "binade x = (if 1 \<le> \<bar>x\<bar> then bitlen \<lfloor>\<bar>x\<bar>\<rfloor> - 1 else - bitlen (\<lceil>1 / \<bar>x\<bar>\<rceil> - 1))"

definition rte :: "real \<Rightarrow> int" where
  \<comment> \<open>nearest integer, ties to even\<close>
  "rte y = (let r = \<lfloor>y\<rfloor>; f = y - of_int r in
     if f < 1 / 2 then r else if 1 / 2 < f then r + 1 else if even r then r else r + 1)"

definition round_to :: "nat \<Rightarrow> real \<Rightarrow> real" where
  \<comment> \<open>nearest value with a \<open>p\<close>-bit significand\<close>
  "round_to p x = (if x = 0 then 0 else
     (let u = 2 powi (binade x - int p + 1) in of_int (rte (x / u)) * u))"

definition to_double :: "real \<Rightarrow> real" where
  "to_double x = round_to 53 x"

definition ld_add :: "real \<Rightarrow> real \<Rightarrow> real" where
  "ld_add a b = round_to 64 (a + b)"

definition ld_sub :: "real \<Rightarrow> real \<Rightarrow> real" where
  "ld_sub a b = round_to 64 (a - b)"

definition ld_mul :: "real \<Rightarrow> real \<Rightarrow> real" where
  "ld_mul a b = round_to 64 (a * b)"

datatype fault =
    NullDeref        \<comment> \<open>a null pointer is dereferenced or passed to a string function\<close>
  | Uninitialised    \<comment> \<open>an uninitialised pointer is dereferenced\<close>
  | WildPointer      \<comment> \<open>an address that \<open>malloc\<close> never returned is dereferenced\<close>
  | OutOfBounds      \<comment> \<open>an array is indexed beyond its last element\<close>
  | BufferOverflow   \<comment> \<open>\<open>strcpy\<close> writes beyond its destination\<close>
  | Unrepresentable  \<comment> \<open>a conversion whose result the target integer type cannot hold\<close>
  | Unmodelled       \<comment> \<open>input in a number syntax this model does not cover\<close>

text \<open>
  Each of the first six faults is undefined behaviour in C: the program has no result.
  A run of the model is \<open>Inl f\<close> when it reaches one of them and \<open>Inr v\<close> when it
  completes with \<open>v\<close>.
\<close>

definition then_do :: "fault + 'a \<Rightarrow> ('a \<Rightarrow> fault + 'b) \<Rightarrow> fault + 'b" where
  "then_do m f = (case m of Inl e \<Rightarrow> Inl e | Inr x \<Rightarrow> f x)"

definition ulong_to_ld :: "64 word \<Rightarrow> real" where
  \<comment> \<open>exact: every 64-bit integer fits a 64-bit significand\<close>
  "ulong_to_ld w = of_nat (unat w)"

definition ld_to_ulong :: "real \<Rightarrow> fault + 64 word" where
  \<comment> \<open>the fraction is discarded; undefined when the integral part is not a value of the type\<close>
  "ld_to_ulong x =
     (if x \<le> - 1 then Inl Unrepresentable
      else if 2 ^ 64 \<le> x then Inl Unrepresentable
      else if x < 0 then Inr 0
      else Inr (word_of_int \<lfloor>x\<rfloor>))"

section \<open>The C library functions the program calls\<close>

definition tab :: char where
  "tab = CHR 0x09"

definition newline :: char where
  "newline = CHR 0x0A"

definition isspace :: "char \<Rightarrow> bool" where
  \<comment> \<open>the C locale: space, tab, newline, vertical tab, form feed, carriage return\<close>
  "isspace c = (c \<in> set [CHR 0x20, CHR 0x09, CHR 0x0A, CHR 0x0B, CHR 0x0C, CHR 0x0D])"

definition digit :: "char \<Rightarrow> int option" where
  "digit c = map_of (zip ''0123456789'' [0, 1, 2, 3, 4, 5, 6, 7, 8, 9]) c"

definition isdigit :: "char \<Rightarrow> bool" where
  "isdigit c = (digit c \<noteq> None)"

fun digits_value :: "string \<Rightarrow> int \<Rightarrow> int" where
  "digits_value [] acc = acc"
| "digits_value (c # cs) acc =
     digits_value cs (10 * acc + (case digit c of None \<Rightarrow> 0 | Some d \<Rightarrow> d))"

definition strip_sign :: "string \<Rightarrow> bool \<times> string" where
  \<comment> \<open>leading white space, then an optional sign: (negative, the rest)\<close>
  "strip_sign s = (case dropWhile isspace s of
       [] \<Rightarrow> (False, [])
     | c # r \<Rightarrow> if c = CHR ''-'' then (True, r)
                else if c = CHR ''+'' then (False, r) else (False, c # r))"

definition atol :: "string \<Rightarrow> fault + int" where
  \<comment> \<open>the longest decimal prefix; 0 when there is none; undefined outside \<open>long\<close>\<close>
  "atol s = (case strip_sign s of (neg, r) \<Rightarrow>
     (let v = digits_value (takeWhile isdigit r) 0;
          k = (if neg then - v else v)
      in if k < - (2 ^ 63) then Inl Unrepresentable
         else if 2 ^ 63 \<le> k then Inl Unrepresentable
         else Inr k))"

definition starts_with_any :: "string \<Rightarrow> string \<Rightarrow> bool" where
  "starts_with_any cs s = (case s of [] \<Rightarrow> False | c # _ \<Rightarrow> c \<in> set cs)"

definition atof :: "string \<Rightarrow> fault + real" where
  \<comment> \<open>plain decimal notation \<open>[sign] digits [. digits]\<close>, correctly rounded to \<open>double\<close>;
      0 when no number starts the text. Exponents, hexadecimal notation, infinities, NaN
      and numbers of more than 300 digits are reported as \<open>Unmodelled\<close>.\<close>
  "atof s = (case strip_sign s of (neg, r) \<Rightarrow>
     (let ip = takeWhile isdigit r;
          r1 = dropWhile isdigit r;
          fp = (if starts_with_any ''.'' r1 then takeWhile isdigit (tl r1) else []);
          r2 = (if starts_with_any ''.'' r1 then dropWhile isdigit (tl r1) else r1);
          v = of_int (digits_value (ip @ fp) 0) / 10 ^ length fp
      in if ip = [] \<and> fp = [] then
           (if starts_with_any ''iInN'' r then Inl Unmodelled else Inr 0)
         else if starts_with_any ''eExX'' r2 then Inl Unmodelled
         else if 300 < length ip then Inl Unmodelled
         else if 300 < length fp then Inl Unmodelled
         else Inr (to_double (if neg then - v else v))))"

definition strtok :: "string \<Rightarrow> string option \<times> string" where
  \<comment> \<open>one call with the tab as only delimiter, on the text left by the previous call:
      (the token or NULL, the text left for the next call)\<close>
  "strtok s = (let s1 = dropWhile (\<lambda>c. c = tab) s in
     if s1 = [] then (None, [])
     else (Some (takeWhile (\<lambda>c. c \<noteq> tab) s1), drop 1 (dropWhile (\<lambda>c. c \<noteq> tab) s1)))"

fun token :: "nat \<Rightarrow> string \<Rightarrow> string option" where
  \<comment> \<open>what the call number \<open>k\<close> (from 0) of \<open>strtok\<close> on a line returns\<close>
  "token 0 s = fst (strtok s)"
| "token (Suc k) s = token k (snd (strtok s))"

fun fgets_chars :: "nat \<Rightarrow> string \<Rightarrow> string \<times> string" where
  \<comment> \<open>at most \<open>n\<close> characters, stopping after a newline: (characters read, rest of the stream)\<close>
  "fgets_chars 0 s = ([], s)"
| "fgets_chars (Suc n) [] = ([], [])"
| "fgets_chars (Suc n) (c # cs) =
     (if c = newline then ([c], cs)
      else (case fgets_chars n cs of (l, r) \<Rightarrow> (c # l, r)))"

definition fgets :: "nat \<Rightarrow> string \<Rightarrow> (string \<times> string) option" where
  \<comment> \<open>\<open>fgets(line, sz, file)\<close>: NULL at end of file, else at most \<open>sz - 1\<close> characters\<close>
  "fgets sz s = (if s = [] then None else Some (fgets_chars (sz - 1) s))"

section \<open>The program\<close>

definition NUM_STATES :: nat where
  "NUM_STATES = 50"

record climate_info =
  code :: string
  num_records :: "64 word"
  sum_temperature :: real
  sum_humidity :: real
  max_temperature :: real
  max_temp_date :: "int option"
  min_temperature :: real
  min_temp_date :: "int option"
  num_lightning :: "64 word"
  num_snowcover :: "64 word"
  sum_cloudcover :: real

text \<open>
  The two dates are \<open>None\<close> while indeterminate: \<open>malloc\<close> does not initialise them and
  the program assigns them only with an extremum. The sums are \<open>long double\<close>, the
  extrema \<open>double\<close>.
\<close>

datatype pointer = Uninit | Null | Addr nat

record memory =
  heap :: "climate_info list"   \<comment> \<open>the structs allocated so far; an address is an index\<close>
  states :: "pointer list"      \<comment> \<open>the array \<open>states\<close> of \<open>main\<close>\<close>

definition load :: "memory \<Rightarrow> pointer \<Rightarrow> fault + (nat \<times> climate_info)" where
  "load m p = (case p of
       Uninit \<Rightarrow> Inl Uninitialised
     | Null \<Rightarrow> Inl NullDeref
     | Addr a \<Rightarrow> if a < length (heap m) then Inr (a, heap m ! a) else Inl WildPointer)"

definition modify :: "memory \<Rightarrow> pointer \<Rightarrow> (climate_info \<Rightarrow> fault + climate_info) \<Rightarrow> fault + memory" where
  \<comment> \<open>an update of the struct a pointer refers to\<close>
  "modify m p f =
     then_do (load m p) (\<lambda>(a, v).
     then_do (f v) (\<lambda>v'. Inr (m\<lparr>heap := (heap m)[a := v']\<rparr>)))"

fun scan :: "memory \<Rightarrow> string option \<Rightarrow> pointer list \<Rightarrow> nat \<Rightarrow> fault + int" where
  \<comment> \<open>the loop of \<open>findStateIndex\<close> at index \<open>i\<close>, with the array from \<open>i\<close> on\<close>
  "scan m stateCode [] i = Inl OutOfBounds"
| "scan m stateCode (p # ps) i =
     (if p = Null then Inr (if i = 0 then - 50 else - int i)
      else then_do (load m p) (\<lambda>(a, v).
        (case stateCode of
           None \<Rightarrow> Inl NullDeref
         | Some c \<Rightarrow> if code v = c then Inr (int i) else scan m stateCode ps (Suc i))))"

definition findStateIndex :: "memory \<Rightarrow> string option \<Rightarrow> fault + int" where
  "findStateIndex m stateCode = scan m stateCode (states m) 0"

definition new_climate_info :: "string \<Rightarrow> climate_info" where
  \<comment> \<open>the struct as lines 176 to 188 leave it\<close>
  "new_climate_info c = \<lparr>code = c, num_records = 0, sum_temperature = 0, sum_humidity = 0,
     max_temperature = - 1000, max_temp_date = None,
     min_temperature = 1000, min_temp_date = None,
     num_lightning = 0, num_snowcover = 0, sum_cloudcover = 0\<rparr>"

definition state_code_token :: "memory \<times> pointer \<Rightarrow> string option \<Rightarrow> fault + (memory \<times> pointer)" where
  \<comment> \<open>lines 166 to 202, on the memory and the local \<open>new_state\<close>\<close>
  "state_code_token mn state_code = (case mn of (m, new_state) \<Rightarrow>
     then_do (findStateIndex m state_code) (\<lambda>state_index.
     then_do
       (if state_index < 0 then
          (case state_code of
             None \<Rightarrow> Inl NullDeref
           | Some c \<Rightarrow>
               if 2 < length c then Inl BufferOverflow
               else
                 (let a = length (heap m);
                      m1 = m\<lparr>heap := heap m @ [new_climate_info c]\<rparr>;
                      i = (if state_index = - 50 then 0 else state_index * - 1)
                  in if nat i < length (states m1)
                     then Inr (m1\<lparr>states := (states m1)[nat i := Addr a]\<rparr>, Addr a, i)
                     else Inl OutOfBounds))
        else Inr (m, new_state, state_index))
       (\<lambda>(m2, new_state2, i).
          if nat i < length (states m2) then
            then_do (modify m2 (states m2 ! nat i) (\<lambda>v. Inr (v\<lparr>num_records := num_records v + 1\<rparr>)))
              (\<lambda>m3. Inr (m3, new_state2))
          else Inl OutOfBounds)))"

definition timestamp_token :: "string option \<Rightarrow> fault + int" where
  \<comment> \<open>lines 205 to 208: \<open>atol(timestamp) / 1000\<close>, C's division truncating towards zero\<close>
  "timestamp_token timestamp = (case timestamp of
       None \<Rightarrow> Inl NullDeref
     | Some s \<Rightarrow> then_do (atol s) (\<lambda>v. Inr (v sdiv 1000)))"

definition humidity_token :: "memory \<Rightarrow> pointer \<Rightarrow> string option \<Rightarrow> fault + memory" where
  \<comment> \<open>lines 216 to 222\<close>
  "humidity_token m new_state humidity = (case humidity of
       None \<Rightarrow> Inl NullDeref
     | Some s \<Rightarrow> then_do (atof s) (\<lambda>humidity_val.
         modify m new_state (\<lambda>v. Inr (v\<lparr>sum_humidity := ld_add (sum_humidity v) humidity_val\<rparr>))))"

definition snow_token :: "memory \<Rightarrow> pointer \<Rightarrow> string option \<Rightarrow> fault + memory" where
  \<comment> \<open>lines 226 to 231: the sum is formed in \<open>long double\<close> and converted back\<close>
  "snow_token m new_state snow = (case snow of
       None \<Rightarrow> Inl NullDeref
     | Some s \<Rightarrow> then_do (atof s) (\<lambda>snow_val.
         modify m new_state (\<lambda>v.
           then_do (ld_to_ulong (ld_add (ulong_to_ld (num_snowcover v)) snow_val))
             (\<lambda>n. Inr (v\<lparr>num_snowcover := n\<rparr>)))))"

definition cloud_coverage_token :: "memory \<Rightarrow> pointer \<Rightarrow> string option \<Rightarrow> fault + memory" where
  \<comment> \<open>lines 235 to 240\<close>
  "cloud_coverage_token m new_state cloudcover = (case cloudcover of
       None \<Rightarrow> Inl NullDeref
     | Some s \<Rightarrow> then_do (atof s) (\<lambda>cloudcover_val.
         modify m new_state (\<lambda>v. Inr (v\<lparr>sum_cloudcover := ld_add (sum_cloudcover v) cloudcover_val\<rparr>))))"

definition lightning_token :: "memory \<Rightarrow> pointer \<Rightarrow> string option \<Rightarrow> fault + memory" where
  \<comment> \<open>lines 244 to 249\<close>
  "lightning_token m new_state lightning = (case lightning of
       None \<Rightarrow> Inl NullDeref
     | Some s \<Rightarrow> then_do (atof s) (\<lambda>lightning_val.
         modify m new_state (\<lambda>v.
           then_do (ld_to_ulong (ld_add (ulong_to_ld (num_lightning v)) lightning_val))
             (\<lambda>n. Inr (v\<lparr>num_lightning := n\<rparr>)))))"

definition fahrenheit :: "real \<Rightarrow> real" where
  \<comment> \<open>line 263: \<open>(temperature_val * 1.8) - 459.67\<close> in \<open>long double\<close>, the two constants
      being \<open>double\<close> literals\<close>
  "fahrenheit k = ld_sub (ld_mul k (to_double (9 / 5))) (to_double (45967 / 100))"

definition fold_temperature :: "real \<Rightarrow> int \<Rightarrow> climate_info \<Rightarrow> climate_info" where
  \<comment> \<open>lines 266 to 280 on the struct \<open>new_state\<close> points to\<close>
  "fold_temperature temperature_val timestamp_long v =
     (let v1 = v\<lparr>sum_temperature := ld_add (sum_temperature v) temperature_val\<rparr>;
          v2 = (if max_temperature v1 < temperature_val
                then v1\<lparr>max_temperature := to_double temperature_val,
                        max_temp_date := Some timestamp_long\<rparr>
                else v1)
      in if temperature_val < min_temperature v2
         then v2\<lparr>min_temperature := to_double temperature_val,
                 min_temp_date := Some timestamp_long\<rparr>
         else v2)"

definition surface_temperature_token ::
  "memory \<Rightarrow> pointer \<Rightarrow> int \<Rightarrow> string option \<Rightarrow> fault + memory" where
  \<comment> \<open>lines 258 to 280\<close>
  "surface_temperature_token m new_state timestamp_long temperature = (case temperature of
       None \<Rightarrow> Inl NullDeref
     | Some s \<Rightarrow> then_do (atof s) (\<lambda>k.
         modify m new_state (\<lambda>v. Inr (fold_temperature (fahrenheit k) timestamp_long v))))"

definition analyze_line :: "memory \<times> pointer \<Rightarrow> string \<Rightarrow> fault + (memory \<times> pointer)" where
  \<comment> \<open>one turn of the loop of \<open>analyze_file\<close> (lines 152 to 282). The third and the eighth
      token (geolocation, pressure) are fetched and never read.\<close>
  "analyze_line mn line =
     then_do (state_code_token mn (token 0 line)) (\<lambda>(m1, new_state).
     then_do (timestamp_token (token 1 line)) (\<lambda>timestamp_long.
     then_do (humidity_token m1 new_state (token 3 line)) (\<lambda>m2.
     then_do (snow_token m2 new_state (token 4 line)) (\<lambda>m3.
     then_do (cloud_coverage_token m3 new_state (token 5 line)) (\<lambda>m4.
     then_do (lightning_token m4 new_state (token 6 line)) (\<lambda>m5.
     then_do (surface_temperature_token m5 new_state timestamp_long (token 8 line)) (\<lambda>m6.
     Inr (m6, new_state))))))))"

fun analyze_lines :: "string list \<Rightarrow> memory \<times> pointer \<Rightarrow> fault + (memory \<times> pointer)" where
  "analyze_lines [] mn = Inr mn"
| "analyze_lines (l # ls) mn = then_do (analyze_line mn l) (analyze_lines ls)"

function read_lines :: "string \<Rightarrow> string list" where
  \<comment> \<open>the lines the calls \<open>fgets(line, 100, file)\<close> deliver until end of file\<close>
  "read_lines s = (case fgets 100 s of None \<Rightarrow> [] | Some (l, r) \<Rightarrow> l # read_lines r)"
  by pat_completeness auto
termination
proof (relation "measure length")
  show "wf (measure length)" by simp
next
  fix s :: string and x2 l r
  assume a: "fgets 100 s = Some x2" "(l, r) = x2"
  have le: "length (snd (fgets_chars n t)) \<le> length t" for n t
  proof (induction n arbitrary: t)
    case 0
    show ?case by simp
  next
    case (Suc n)
    show ?case
    proof (cases t)
      case Nil
      then show ?thesis by simp
    next
      case (Cons c cs)
      with Suc [of cs] show ?thesis by (auto split: prod.splits)
    qed
  qed
  have shorter: "length (snd (fgets_chars (Suc n) t)) < length t" if "t \<noteq> []" for n t
  proof (cases t)
    case Nil
    with that show ?thesis by simp
  next
    case (Cons c cs)
    with le [of n cs] show ?thesis by (auto split: prod.splits)
  qed
  from a have "s \<noteq> []" "r = snd (fgets_chars 99 s)"
    by (auto simp: fgets_def split: if_splits)
  with shorter [of s 98] show "(r, s) \<in> measure length" by simp
qed

declare read_lines.simps [simp del]

definition analyze_file :: "string \<Rightarrow> memory \<Rightarrow> fault + memory" where
  \<comment> \<open>\<open>analyze_file\<close> on the contents of an opened file; \<open>new_state\<close> is a local variable
      without initialiser\<close>
  "analyze_file file m =
     then_do (analyze_lines (read_lines file) (m, Uninit)) (\<lambda>(m', new_state). Inr m')"

fun analyze_files :: "string option list \<Rightarrow> memory \<Rightarrow> fault + memory" where
  \<comment> \<open>the loop of \<open>main\<close> over its arguments: \<open>None\<close> is a file that \<open>fopen\<close> cannot open\<close>
  "analyze_files [] m = Inr m"
| "analyze_files (None # fs) m = analyze_files fs m"
| "analyze_files (Some file # fs) m = then_do (analyze_file file m) (analyze_files fs)"

definition initial_memory :: memory where
  \<comment> \<open>line 119: \<open>struct climate_info *states[NUM_STATES] = {NULL}\<close>\<close>
  "initial_memory = \<lparr>heap = [], states = replicate NUM_STATES Null\<rparr>"

definition run :: "string option list \<Rightarrow> fault + memory" where
  \<comment> \<open>\<open>main\<close> up to the call of \<open>print_report\<close>: the table the report is printed from\<close>
  "run files = analyze_files files initial_memory"

definition tdv :: "string list \<Rightarrow> string" where
  \<comment> \<open>a line of the input format: the fields, a tab between two of them, a newline\<close>
  "tdv fs = foldr (\<lambda>f r. if r = [newline] then f @ r else f @ tab # r) fs [newline]"

definition lookup :: "memory \<Rightarrow> string \<Rightarrow> climate_info option" where
  \<comment> \<open>the struct the table holds for a state code, as \<open>print_report\<close> would reach it\<close>
  "lookup m c = (case findStateIndex m (Some c) of
       Inr i \<Rightarrow> (if 0 \<le> i then
                   (case load m (states m ! nat i) of Inr (a, v) \<Rightarrow> Some v | Inl e \<Rightarrow> None)
                 else None)
     | Inl e \<Rightarrow> None)"

section \<open>Notions the properties are stated with\<close>

definition representable :: "nat \<Rightarrow> real \<Rightarrow> bool" where
  \<comment> \<open>a value of a floating-point format with a \<open>p\<close>-bit significand\<close>
  "representable p x \<longleftrightarrow> (\<exists>k j. \<bar>k\<bar> < 2 ^ p \<and> x = of_int k * 2 powi j)"

definition file_lines :: "string option list \<Rightarrow> string list" where
  \<comment> \<open>the lines the program reads, over all files that can be opened\<close>
  "file_lines files = concat (map (\<lambda>f. case f of None \<Rightarrow> [] | Some s \<Rightarrow> read_lines s) files)"

definition line_temperature :: "string \<Rightarrow> real option" where
  \<comment> \<open>the Fahrenheit temperature the program computes from a line\<close>
  "line_temperature line = (case token 8 line of
       None \<Rightarrow> None
     | Some s \<Rightarrow> (case atof s of Inl e \<Rightarrow> None | Inr k \<Rightarrow> Some (fahrenheit k)))"

definition temperate :: "string \<Rightarrow> bool" where
  \<comment> \<open>the temperature of the line lies strictly between the two sentinels\<close>
  "temperate line = (case line_temperature line of
       None \<Rightarrow> True
     | Some t \<Rightarrow> - 1000 < t \<and> t < 1000)"

definition field_value :: "nat \<Rightarrow> string \<Rightarrow> real" where
  \<comment> \<open>the value \<open>atof\<close> gives for token \<open>k\<close> of a line\<close>
  "field_value k line = (case token k line of
       None \<Rightarrow> 0
     | Some s \<Rightarrow> (case atof s of Inl e \<Rightarrow> 0 | Inr x \<Rightarrow> x))"

definition whole :: "real \<Rightarrow> bool" where
  "whole x = (x = of_int \<lfloor>x\<rfloor>)"

definition valid_pointer :: "memory \<Rightarrow> pointer \<Rightarrow> bool" where
  \<comment> \<open>NULL or the address of an allocated struct\<close>
  "valid_pointer m p = (case p of Uninit \<Rightarrow> False | Null \<Rightarrow> True | Addr a \<Rightarrow> a < length (heap m))"

definition valid_memory :: "memory \<Rightarrow> bool" where
  "valid_memory m = list_all (valid_pointer m) (states m)"

definition points_to_code :: "memory \<Rightarrow> string \<Rightarrow> pointer \<Rightarrow> bool" where
  "points_to_code m c p = (case p of Uninit \<Rightarrow> False | Null \<Rightarrow> False
     | Addr a \<Rightarrow> a < length (heap m) \<and> code (heap m ! a) = c)"

definition known :: "memory \<Rightarrow> string \<Rightarrow> bool" where
  \<comment> \<open>some element of \<open>states\<close> points to a struct with this code\<close>
  "known m c = list_ex (points_to_code m c) (states m)"

definition integer_field :: "string option \<Rightarrow> bool" where
  \<comment> \<open>a token that is present and that \<open>atol\<close> converts\<close>
  "integer_field t = (case t of None \<Rightarrow> False | Some s \<Rightarrow> \<not> isl (atol s))"

definition number_field :: "string option \<Rightarrow> bool" where
  \<comment> \<open>a token that is present and that \<open>atof\<close> converts\<close>
  "number_field t = (case t of None \<Rightarrow> False | Some s \<Rightarrow> \<not> isl (atof s))"

definition flag_record :: "string \<Rightarrow> string \<Rightarrow> bool" where
  \<comment> \<open>a line for state \<open>c\<close> with every field the program reads present and a number,
      whose snow and lightning fields are whole numbers\<close>
  "flag_record c l \<longleftrightarrow> token 0 l = Some c \<and> length c \<le> 2
     \<and> integer_field (token 1 l) \<and> number_field (token 3 l) \<and> number_field (token 4 l)
     \<and> number_field (token 5 l) \<and> number_field (token 6 l) \<and> number_field (token 8 l)
     \<and> whole (field_value 4 l) \<and> whole (field_value 6 l)"


definition extrema_ok :: "climate_info \<Rightarrow> bool" where
  \<comment> \<open>the two extrema are values of \<open>double\<close>, the minimum not above the maximum\<close>
  "extrema_ok v \<longleftrightarrow> min_temperature v \<le> max_temperature v
     \<and> representable 53 (min_temperature v) \<and> representable 53 (max_temperature v)"

definition before :: "memory \<Rightarrow> nat \<Rightarrow> string \<Rightarrow> climate_info" where
  \<comment> \<open>the struct at an address when a turn of the loop starts; for a struct the turn
      allocates (for state code \<open>c\<close>), the struct as allocated\<close>
  "before m a c = (if a < length (heap m) then heap m ! a else new_climate_info c)"

definition zero_record :: "string \<Rightarrow> string" where
  \<comment> \<open>a line of the input format for state code \<open>c\<close>, every other field \<open>0\<close>\<close>
  "zero_record c = tdv [c, ''0'', ''0'', ''0'', ''0'', ''0'', ''0'', ''0'', ''0'']"

definition codes :: "string list" where
  \<comment> \<open>sixty distinct two-letter codes, \<open>AA\<close> to \<open>FJ\<close>\<close>
  "codes = concat (map (\<lambda>a. map (\<lambda>b. [a, b]) ''ABCDEFGHIJ'') ''ABCDEF'')"

definition good_code :: "string \<Rightarrow> bool" where
  \<comment> \<open>two characters, neither a tab nor a newline\<close>
  "good_code c \<longleftrightarrow> length c = 2 \<and> tab \<notin> set c \<and> newline \<notin> set c"

section \<open>Running the model on concrete input\<close>

lemma then_do_simps [simp]:
  "then_do (Inl e) f = Inl e" "then_do (Inr x) f = f x"
  by (simp_all add: then_do_def)

lemma then_do_weak_cong: "m = m' \<Longrightarrow> then_do m f = then_do m' f"
  by simp

lemma then_do_Inr_iff:
  "then_do m f = Inr y \<longleftrightarrow> (\<exists>x. m = Inr x \<and> f x = Inr y)"
  by (cases m) simp_all

lemma replicate_numeral: "replicate (numeral v) x = x # replicate (numeral v - 1) x"
  by (simp add: numeral_eq_Suc)

lemma fgets_chars_numeral:
  "fgets_chars (numeral v) s = (case s of [] \<Rightarrow> ([], []) | c # cs \<Rightarrow>
     if c = newline then ([c], cs)
     else (case fgets_chars (numeral v - 1) cs of (l, r) \<Rightarrow> (c # l, r)))"
  by (cases s) (simp_all add: numeral_eq_Suc)

lemma token_numeral: "token (numeral v) s = token (numeral v - 1) (snd (strtok s))"
  by (simp add: numeral_eq_Suc)

lemma list_update_numeral: "(x # xs)[numeral v := y] = x # xs[numeral v - 1 := y]"
  by (simp add: numeral_eq_Suc)

lemmas float_eval = binade_def rte_def round_to_def bitlen_def compute_floorlog
  to_double_def ld_add_def ld_sub_def ld_mul_def ulong_to_ld_def ld_to_ulong_def

lemmas libc_eval = tab_def newline_def isspace_def digit_def isdigit_def strip_sign_def
  atol_def starts_with_any_def atof_def strtok_def fgets_def

lemmas program_eval = NUM_STATES_def load_def modify_def findStateIndex_def new_climate_info_def
  state_code_token_def timestamp_token_def humidity_token_def snow_token_def
  cloud_coverage_token_def lightning_token_def fahrenheit_def fold_temperature_def
  surface_temperature_token_def analyze_line_def analyze_file_def initial_memory_def
  run_def tdv_def lookup_def read_lines.simps file_lines_def line_temperature_def temperate_def
  field_value_def whole_def valid_pointer_def valid_memory_def
  points_to_code_def known_def flag_record_def integer_field_def number_field_def

lemmas eval = float_eval libc_eval program_eval Let_def
  replicate_numeral fgets_chars_numeral token_numeral list_update_numeral

section \<open>Rounding to nearest\<close>

lemma pow2_pos: "(0::real) < 2 powi j"
  by (simp add: zero_less_power_int)

lemma pow2_add: "(2::real) powi (i + j) = 2 powi i * 2 powi j"
  by (simp add: power_int_add)

lemma pow2_mono: "i \<le> j \<Longrightarrow> (2::real) powi i \<le> 2 powi j"
  by (simp add: power_int_increasing)

lemma pow2_nat: "0 \<le> j \<Longrightarrow> (2::real) powi j = of_int (2 ^ nat j)"
  by (simp add: power_int_nonneg_exp)

lemma binade_bounds:
  assumes "x \<noteq> 0"
  shows "2 powi binade x \<le> \<bar>x\<bar>" and "\<bar>x\<bar> < 2 powi (binade x + 1)"
proof -
  define a where "a = \<bar>x\<bar>"
  have a: "0 < a" using assms by (simp add: a_def)
  have both: "2 powi binade x \<le> a \<and> a < 2 powi (binade x + 1)"
  proof (cases "1 \<le> a")
    case True
    define n where "n = \<lfloor>a\<rfloor>"
    have n: "1 \<le> n" using True by (simp add: n_def le_floor_iff)
    define e where "e = bitlen n - 1"
    have e: "0 \<le> e" using n by (simp add: e_def bitlen_alt_def)
    have bn: "2 ^ nat e \<le> n" "n < 2 ^ nat (e + 1)"
      using bitlen_bounds [of n] n by (simp_all add: e_def)
    have b: "binade x = e"
      using True by (simp add: binade_def a_def n_def e_def)
    have "(2::real) powi e = of_int (2 ^ nat e)"
      using e by (rule pow2_nat)
    also have "\<dots> \<le> of_int n"
      using bn(1) by (simp only: of_int_le_iff)
    also have "\<dots> \<le> a" by (simp add: n_def)
    finally have lower: "2 powi e \<le> a" .
    have "a < of_int (n + 1)" by (simp add: n_def)
    also have "\<dots> \<le> of_int (2 ^ nat (e + 1))"
      using bn(2) by (simp only: of_int_le_iff)
    also have "\<dots> = 2 powi (e + 1)"
      using e by (simp only: pow2_nat)
    finally have upper: "a < 2 powi (e + 1)" .
    from lower upper show ?thesis by (simp add: b)
  next
    case False
    define y where "y = 1 / a"
    have y: "1 < y" using False a by (simp add: y_def)
    define c where "c = \<lceil>y\<rceil>"
    have c: "2 \<le> c" using y unfolding c_def by linarith
    define k where "k = bitlen (c - 1)"
    have k: "1 \<le> k" using c by (simp add: k_def bitlen_alt_def)
    have bk: "2 ^ nat (k - 1) \<le> c - 1" "c - 1 < 2 ^ nat k"
      using bitlen_bounds [of "c - 1"] c by (simp_all add: k_def)
    have b: "binade x = - k"
      using False by (simp add: binade_def a_def y_def c_def k_def)
    have "y \<le> of_int c" by (simp add: c_def)
    also have "\<dots> \<le> of_int (2 ^ nat k)"
      using bk(2) by (simp only: of_int_le_iff)
    also have "\<dots> = 2 powi k"
      using k by (simp only: pow2_nat)
    finally have "1 / a \<le> 2 powi k" by (simp add: y_def)
    then have "1 \<le> 2 powi k * a"
      using a by (simp add: pos_divide_le_eq)
    then have "2 powi (- k) \<le> a"
      using pow2_pos [of k] by (simp add: power_int_minus field_simps)
    then have lower: "2 powi (- k) \<le> a" .
    have "(2::real) powi (k - 1) = of_int (2 ^ nat (k - 1))"
      using k by (simp only: pow2_nat)
    also have "\<dots> \<le> of_int (c - 1)"
      using bk(1) by (simp only: of_int_le_iff)
    also have "\<dots> < y" unfolding c_def by linarith
    finally have "2 powi (k - 1) < 1 / a" by (simp add: y_def)
    then have "2 powi (k - 1) * a < 1"
      using a by (simp add: pos_less_divide_eq)
    moreover have "(2::real) powi (- k + 1) * 2 powi (k - 1) = 1"
      by (simp flip: pow2_add)
    ultimately have upper: "a < 2 powi (- k + 1)"
      using pow2_pos [of "k - 1"] pow2_pos [of "- k + 1"]
      by (metis mult.commute mult_less_cancel_left_pos)
    from lower upper show ?thesis by (simp add: b)
  qed
  then show "2 powi binade x \<le> \<bar>x\<bar>" and "\<bar>x\<bar> < 2 powi (binade x + 1)"
    by (simp_all add: a_def)
qed

lemma rte_bounds: "\<lfloor>y\<rfloor> \<le> rte y" "rte y \<le> \<lceil>y\<rceil>"
proof -
  show "\<lfloor>y\<rfloor> \<le> rte y"
    by (simp add: rte_def Let_def)
  have "\<lceil>y\<rceil> = \<lfloor>y\<rfloor> + 1" if "y - of_int \<lfloor>y\<rfloor> \<noteq> 0"
    using that by (metis ceiling_altdef eq_iff_diff_eq_0)
  moreover have "\<lfloor>y\<rfloor> \<le> \<lceil>y\<rceil>" by (simp add: floor_le_ceiling)
  ultimately show "rte y \<le> \<lceil>y\<rceil>"
    by (auto simp: rte_def Let_def)
qed

lemma rte_ge: "of_int k \<le> y \<Longrightarrow> k \<le> rte y"
proof -
  assume "of_int k \<le> y"
  then have "k \<le> \<lfloor>y\<rfloor>" by (simp add: le_floor_iff)
  with rte_bounds(1) [of y] show ?thesis by linarith
qed

lemma rte_le: "y \<le> of_int k \<Longrightarrow> rte y \<le> k"
proof -
  assume "y \<le> of_int k"
  then have "\<lceil>y\<rceil> \<le> k" by (simp add: ceiling_le_iff)
  with rte_bounds(2) [of y] show ?thesis by linarith
qed

lemma rte_minus: "rte (- y) = - rte y"
proof (cases "y = of_int \<lfloor>y\<rfloor>")
  case True
  then obtain k where "y = of_int k" ..
  then show ?thesis by (simp add: rte_def)
next
  case False
  then have fl: "\<lfloor>- y\<rfloor> = - \<lfloor>y\<rfloor> - 1"
    by (metis ceiling_altdef ceiling_def minus_minus minus_diff_eq diff_minus_eq_add add.commute)
  show ?thesis
    unfolding rte_def Let_def fl by (auto simp: algebra_simps)
qed

lemma binade_minus: "binade (- x) = binade x"
  by (simp add: binade_def)

lemma round_to_minus: "round_to p (- x) = - round_to p x"
  by (simp add: round_to_def binade_minus rte_minus Let_def)

lemma round_to_ge:
  assumes m: "representable p m" and le: "m \<le> x" and p: "0 < p"
  shows "m \<le> round_to p x"
proof (cases "x = 0")
  case True
  with le show ?thesis by (simp add: round_to_def)
next
  case False
  define e where "e = binade x"
  define u :: real where "u = 2 powi (e - int p + 1)"
  have u: "0 < u" by (simp add: u_def pow2_pos)
  have r: "round_to p x = of_int (rte (x / u)) * u"
    using False by (simp add: round_to_def e_def u_def Let_def)
  from m obtain k j where k: "\<bar>k\<bar> < 2 ^ p" and mk: "m = of_int k * 2 powi j"
    by (auto simp: representable_def)
  have ex: "2 powi e \<le> \<bar>x\<bar>"
    using binade_bounds(1) [OF False] by (simp add: e_def)
  have big: "2 powi e = of_int (2 ^ (p - 1)) * u"
  proof -
    have "(2::real) powi e = 2 powi (int p - 1) * 2 powi (e - int p + 1)"
      by (simp flip: pow2_add)
    also have "(2::real) powi (int p - 1) = of_int (2 ^ (p - 1))"
      using p by (simp add: pow2_nat nat_diff_distrib)
    finally show ?thesis by (simp add: u_def)
  qed
  show ?thesis
  proof (cases "e - int p + 1 \<le> j")
    case True
    define K where "K = k * 2 ^ nat (j - (e - int p + 1))"
    have "(2::real) powi j = 2 powi (j - (e - int p + 1)) * u"
      by (simp add: u_def flip: pow2_add)
    also have "(2::real) powi (j - (e - int p + 1)) = of_int (2 ^ nat (j - (e - int p + 1)))"
      using True by (simp add: pow2_nat)
    finally have mK: "m = of_int K * u"
      by (simp add: mk K_def)
    with le u have "of_int K \<le> x / u"
      by (simp add: pos_le_divide_eq)
    then have "K \<le> rte (x / u)" by (rule rte_ge)
    then have "(of_int K :: real) \<le> of_int (rte (x / u))" by simp
    with u show ?thesis
      by (simp add: r mK)
  next
    case False
    then have j: "int p + j \<le> e" by simp
    have "\<bar>m\<bar> = of_int \<bar>k\<bar> * 2 powi j"
      by (simp add: mk abs_mult pow2_pos less_imp_le)
    also have "\<dots> < of_int (2 ^ p) * 2 powi j"
      using k pow2_pos [of j] by (simp del: of_int_power)
    also have "\<dots> = 2 powi (int p + j)"
      by (simp add: pow2_add)
    also have "\<dots> \<le> 2 powi e"
      using j by (rule pow2_mono)
    finally have small: "\<bar>m\<bar> < 2 powi e" .
    show ?thesis
    proof (cases "0 < x")
      case True
      with ex have "of_int (2 ^ (p - 1)) * u \<le> x" by (simp add: big)
      with u have "of_int (2 ^ (p - 1)) \<le> x / u"
        by (simp add: pos_le_divide_eq)
      then have "2 ^ (p - 1) \<le> rte (x / u)" by (rule rte_ge)
      then have "(of_int (2 ^ (p - 1)) :: real) \<le> of_int (rte (x / u))"
        by (simp only: of_int_le_iff)
      with u have "2 powi e \<le> round_to p x"
        by (simp only: r big mult_le_cancel_right_pos)
      with small show ?thesis by linarith
    next
      case False
      with \<open>x \<noteq> 0\<close> ex small le show ?thesis by linarith
    qed
  qed
qed

lemma representable_minus: "representable p (- m) = representable p m"
proof -
  have "representable p (- m)" if "representable p m" for m
  proof -
    from that obtain k j where "\<bar>k\<bar> < 2 ^ p" "m = of_int k * 2 powi j"
      by (auto simp: representable_def)
    then have "\<bar>- k\<bar> < 2 ^ p" "- m = of_int (- k) * 2 powi j" by simp_all
    then show ?thesis unfolding representable_def by blast
  qed
  from this [of m] this [of "- m"] show ?thesis by auto
qed

lemma round_to_le:
  assumes "representable p m" and "x \<le> m" and "0 < p"
  shows "round_to p x \<le> m"
proof -
  have "- m \<le> round_to p (- x)"
    using assms by (intro round_to_ge) (simp_all add: representable_minus)
  then show ?thesis by (simp add: round_to_minus)
qed


lemma representable_round_to:
  assumes p: "0 < p"
  shows "representable p (round_to p x)"
proof (cases "x = 0")
  case True
  have "\<bar>0::int\<bar> < 2 ^ p" "(0::real) = of_int 0 * 2 powi 0" by simp_all
  then have "representable p 0" unfolding representable_def by blast
  with True show ?thesis by (simp add: round_to_def)
next
  case False
  define e where "e = binade x"
  define u :: real where "u = 2 powi (e - int p + 1)"
  have u: "0 < u" by (simp add: u_def pow2_pos)
  define r where "r = rte (x / u)"
  have rt: "round_to p x = of_int r * u"
    using False by (simp add: round_to_def e_def u_def r_def Let_def)
  have top: "2 powi (e + 1) = of_int (2 ^ p) * u"
  proof -
    have "(2::real) powi (e + 1) = 2 powi (int p + (e - int p + 1))"
      by simp
    also have "\<dots> = 2 powi (int p) * 2 powi (e - int p + 1)"
      by (rule pow2_add)
    finally show ?thesis by (simp add: u_def)
  qed
  have "\<bar>x\<bar> < of_int (2 ^ p) * u"
    using binade_bounds(2) [OF False] unfolding e_def [symmetric] top .
  with u have "\<bar>x / u\<bar> < of_int (2 ^ p)"
    by (simp add: pos_divide_less_eq abs_divide del: of_int_power)
  then have "x / u \<le> of_int (2 ^ p)" "of_int (- (2 ^ p)) \<le> x / u"
    unfolding of_int_minus by linarith+
  then have "r \<le> 2 ^ p" "- (2 ^ p) \<le> r"
    unfolding r_def by (simp_all only: rte_le rte_ge)
  then consider "\<bar>r\<bar> < 2 ^ p" | "r = 2 ^ p" | "r = - (2 ^ p)" by linarith
  then show ?thesis
  proof cases
    case 1
    then show ?thesis unfolding representable_def rt u_def by blast
  next
    case 2
    have "\<bar>1::int\<bar> < 2 ^ p" using p by simp
    moreover have "round_to p x = of_int 1 * 2 powi (e + 1)"
      by (simp add: rt 2 top)
    ultimately show ?thesis unfolding representable_def by blast
  next
    case 3
    have "\<bar>- 1::int\<bar> < 2 ^ p" using p by simp
    moreover have "round_to p x = of_int (- 1) * 2 powi (e + 1)"
      by (simp add: rt 3 top)
    ultimately show ?thesis unfolding representable_def by blast
  qed
qed

lemma representable_of_int: "\<bar>n\<bar> < 2 ^ p \<Longrightarrow> representable p (of_int n)"
proof -
  assume "\<bar>n\<bar> < 2 ^ p"
  moreover have "(of_int n :: real) = of_int n * 2 powi 0" by simp
  ultimately show ?thesis unfolding representable_def by blast
qed

section \<open>One turn of the loop\<close>

lemma modify_Inr:
  "modify m p f = Inr m' \<longleftrightarrow>
     (\<exists>a v'. p = Addr a \<and> a < length (heap m) \<and> f (heap m ! a) = Inr v'
        \<and> m' = m\<lparr>heap := (heap m)[a := v']\<rparr>)"
  by (cases p) (auto simp: modify_def load_def then_do_Inr_iff)

lemma humidity_token_Inr:
  assumes "humidity_token m p tok = Inr m'"
  obtains s x a where "tok = Some s" "atof s = Inr x" "p = Addr a" "a < length (heap m)"
    "m' = m\<lparr>heap := (heap m)[a := (heap m ! a)\<lparr>sum_humidity := ld_add (sum_humidity (heap m ! a)) x\<rparr>]\<rparr>"
  using assms
  by (cases tok) (auto simp: humidity_token_def then_do_Inr_iff modify_Inr)

lemma cloud_coverage_token_Inr:
  assumes "cloud_coverage_token m p tok = Inr m'"
  obtains s x a where "tok = Some s" "atof s = Inr x" "p = Addr a" "a < length (heap m)"
    "m' = m\<lparr>heap := (heap m)[a := (heap m ! a)\<lparr>sum_cloudcover := ld_add (sum_cloudcover (heap m ! a)) x\<rparr>]\<rparr>"
  using assms
  by (cases tok) (auto simp: cloud_coverage_token_def then_do_Inr_iff modify_Inr)

lemma snow_token_Inr:
  assumes "snow_token m p tok = Inr m'"
  obtains s x a n where "tok = Some s" "atof s = Inr x" "p = Addr a" "a < length (heap m)"
    "ld_to_ulong (ld_add (ulong_to_ld (num_snowcover (heap m ! a))) x) = Inr n"
    "m' = m\<lparr>heap := (heap m)[a := (heap m ! a)\<lparr>num_snowcover := n\<rparr>]\<rparr>"
  using assms
  by (cases tok) (auto simp: snow_token_def then_do_Inr_iff modify_Inr)

lemma lightning_token_Inr:
  assumes "lightning_token m p tok = Inr m'"
  obtains s x a n where "tok = Some s" "atof s = Inr x" "p = Addr a" "a < length (heap m)"
    "ld_to_ulong (ld_add (ulong_to_ld (num_lightning (heap m ! a))) x) = Inr n"
    "m' = m\<lparr>heap := (heap m)[a := (heap m ! a)\<lparr>num_lightning := n\<rparr>]\<rparr>"
  using assms
  by (cases tok) (auto simp: lightning_token_def then_do_Inr_iff modify_Inr)

lemma surface_temperature_token_Inr:
  assumes "surface_temperature_token m p ts tok = Inr m'"
  obtains s k a where "tok = Some s" "atof s = Inr k" "p = Addr a" "a < length (heap m)"
    "m' = m\<lparr>heap := (heap m)[a := fold_temperature (fahrenheit k) ts (heap m ! a)]\<rparr>"
  using assms
  by (cases tok) (auto simp: surface_temperature_token_def then_do_Inr_iff modify_Inr)

lemma timestamp_token_Inr:
  assumes "timestamp_token tok = Inr ts"
  obtains s ms where "tok = Some s" "atol s = Inr ms" "ts = ms sdiv 1000"
  using assms
  by (cases tok) (auto simp: timestamp_token_def then_do_Inr_iff)

lemma state_code_token_Inr:
  assumes "state_code_token (m, ns) tok = Inr (m1, ns1)"
  shows "(\<exists>i a. findStateIndex m tok = Inr i \<and> 0 \<le> i \<and> nat i < length (states m)
            \<and> states m ! nat i = Addr a \<and> a < length (heap m)
            \<and> m1 = m\<lparr>heap := (heap m)[a := (heap m ! a)\<lparr>num_records := num_records (heap m ! a) + 1\<rparr>]\<rparr>
            \<and> ns1 = ns)
       \<or> (\<exists>r c. findStateIndex m tok = Inr r \<and> r < 0 \<and> tok = Some c \<and> length c \<le> 2
            \<and> nat (if r = - 50 then 0 else - r) < length (states m)
            \<and> m1 = m\<lparr>heap := heap m @ [(new_climate_info c)\<lparr>num_records := 1\<rparr>],
                      states := (states m)[nat (if r = - 50 then 0 else - r) := Addr (length (heap m))]\<rparr>
            \<and> ns1 = Addr (length (heap m)))"
proof -
  from assms obtain r where r: "findStateIndex m tok = Inr r"
    by (auto simp: state_code_token_def then_do_Inr_iff)
  show ?thesis
  proof (cases "r < 0")
    case False
    with assms r show ?thesis
      by (auto simp: state_code_token_def then_do_Inr_iff modify_Inr split: if_splits)
  next
    case True
    with assms r obtain c where c: "tok = Some c" "length c \<le> 2"
      by (cases tok) (auto simp: state_code_token_def then_do_Inr_iff split: if_splits)
    define i where "i = nat (if r = - 50 then 0 else - r)"
    from assms r True c have i: "i < length (states m)"
      by (auto simp: state_code_token_def then_do_Inr_iff Let_def i_def split: if_splits)
    from assms r True c i have "m1 = m\<lparr>heap := heap m @ [(new_climate_info c)\<lparr>num_records := 1\<rparr>],
                      states := (states m)[i := Addr (length (heap m))]\<rparr> \<and> ns1 = Addr (length (heap m))"
      by (auto simp: state_code_token_def then_do_Inr_iff Let_def i_def modify_Inr new_climate_info_def
          split: if_splits)
    with r True c i show ?thesis unfolding i_def by blast
  qed
qed

lemma analyze_line_Inr:
  assumes "analyze_line (m, ns) line = Inr (m', ns')"
  obtains m1 a s1 ms s3 h s4 sn n_s s5 cl s6 li n_l s8 k where
    "state_code_token (m, ns) (token 0 line) = Inr (m1, ns')"
    "ns' = Addr a" "a < length (heap m1)"
    "token 1 line = Some s1" "atol s1 = Inr ms"
    "token 3 line = Some s3" "atof s3 = Inr h"
    "token 4 line = Some s4" "atof s4 = Inr sn"
    "ld_to_ulong (ld_add (ulong_to_ld (num_snowcover (heap m1 ! a))) sn) = Inr n_s"
    "token 5 line = Some s5" "atof s5 = Inr cl"
    "token 6 line = Some s6" "atof s6 = Inr li"
    "ld_to_ulong (ld_add (ulong_to_ld (num_lightning (heap m1 ! a))) li) = Inr n_l"
    "token 8 line = Some s8" "atof s8 = Inr k"
    "m' = m1\<lparr>heap := (heap m1)[a := fold_temperature (fahrenheit k) (ms sdiv 1000)
        ((heap m1 ! a)\<lparr>sum_humidity := ld_add (sum_humidity (heap m1 ! a)) h,
                        num_snowcover := n_s,
                        sum_cloudcover := ld_add (sum_cloudcover (heap m1 ! a)) cl,
                        num_lightning := n_l\<rparr>)]\<rparr>"
proof -
  from assms obtain m1 ts m2 m3 m4 m5 where
    A: "state_code_token (m, ns) (token 0 line) = Inr (m1, ns')" and
    B: "timestamp_token (token 1 line) = Inr ts" and
    C: "humidity_token m1 ns' (token 3 line) = Inr m2" and
    D: "snow_token m2 ns' (token 4 line) = Inr m3" and
    E: "cloud_coverage_token m3 ns' (token 5 line) = Inr m4" and
    F: "lightning_token m4 ns' (token 6 line) = Inr m5" and
    G: "surface_temperature_token m5 ns' ts (token 8 line) = Inr m'"
    by (auto simp: analyze_line_def then_do_Inr_iff)
  from B obtain s1 ms where b: "token 1 line = Some s1" "atol s1 = Inr ms" "ts = ms sdiv 1000"
    by (rule timestamp_token_Inr)
  from C obtain s3 h a where c: "token 3 line = Some s3" "atof s3 = Inr h" "ns' = Addr a"
    "a < length (heap m1)"
    "m2 = m1\<lparr>heap := (heap m1)[a := (heap m1 ! a)\<lparr>sum_humidity := ld_add (sum_humidity (heap m1 ! a)) h\<rparr>]\<rparr>"
    by (rule humidity_token_Inr)
  from D c obtain s4 sn n_s where d: "token 4 line = Some s4" "atof s4 = Inr sn"
    "ld_to_ulong (ld_add (ulong_to_ld (num_snowcover (heap m2 ! a))) sn) = Inr n_s"
    "m3 = m2\<lparr>heap := (heap m2)[a := (heap m2 ! a)\<lparr>num_snowcover := n_s\<rparr>]\<rparr>"
    by (auto elim: snow_token_Inr)
  from E c obtain s5 cl where e: "token 5 line = Some s5" "atof s5 = Inr cl"
    "m4 = m3\<lparr>heap := (heap m3)[a := (heap m3 ! a)\<lparr>sum_cloudcover := ld_add (sum_cloudcover (heap m3 ! a)) cl\<rparr>]\<rparr>"
    by (auto elim: cloud_coverage_token_Inr)
  from F c obtain s6 li n_l where f: "token 6 line = Some s6" "atof s6 = Inr li"
    "ld_to_ulong (ld_add (ulong_to_ld (num_lightning (heap m4 ! a))) li) = Inr n_l"
    "m5 = m4\<lparr>heap := (heap m4)[a := (heap m4 ! a)\<lparr>num_lightning := n_l\<rparr>]\<rparr>"
    by (auto elim: lightning_token_Inr)
  from G c obtain s8 k where g: "token 8 line = Some s8" "atof s8 = Inr k"
    "m' = m5\<lparr>heap := (heap m5)[a := fold_temperature (fahrenheit k) ts (heap m5 ! a)]\<rparr>"
    by (auto elim: surface_temperature_token_Inr)
  have d': "ld_to_ulong (ld_add (ulong_to_ld (num_snowcover (heap m1 ! a))) sn) = Inr n_s"
    using d(3) c(4) by (simp add: c(5))
  have f': "ld_to_ulong (ld_add (ulong_to_ld (num_lightning (heap m1 ! a))) li) = Inr n_l"
    using f(3) c(4) by (simp add: c(5) d(4) e(3))
  have m': "m' = m1\<lparr>heap := (heap m1)[a := fold_temperature (fahrenheit k) (ms sdiv 1000)
        ((heap m1 ! a)\<lparr>sum_humidity := ld_add (sum_humidity (heap m1 ! a)) h,
                        num_snowcover := n_s,
                        sum_cloudcover := ld_add (sum_cloudcover (heap m1 ! a)) cl,
                        num_lightning := n_l\<rparr>)]\<rparr>"
    using c(4) by (simp add: g(3) f(4) e(3) d(4) c(5) b(3))
  from A c(3,4) b(1,2) c(1,2) d(1,2) d' e(1,2) f(1,2) f' g(1,2) m' show ?thesis
    by (rule that)
qed

lemma token_Nil: "token k [] = None"
  by (induction k) (simp_all add: strtok_def)

lemma filter_dropWhile_le: "length (filter P (dropWhile Q xs)) \<le> length (filter P xs)"
  by (induction xs) auto

lemma strtok_tabs:
  assumes "snd (strtok s) \<noteq> []"
  shows "Suc (length (filter (\<lambda>c. c = tab) (snd (strtok s)))) \<le> length (filter (\<lambda>c. c = tab) s)"
proof -
  define s1 where "s1 = dropWhile (\<lambda>c. c = tab) s"
  define r where "r = dropWhile (\<lambda>c. c \<noteq> tab) s1"
  from assms have s1: "s1 \<noteq> []" and snd: "snd (strtok s) = drop 1 r"
    by (auto simp: strtok_def Let_def s1_def r_def split: if_splits)
  with assms have "r \<noteq> []" by auto
  then obtain c r' where r: "r = c # r'" by (cases r) auto
  have "c = tab"
    using r unfolding r_def by (simp add: dropWhile_eq_Cons_conv)
  with r snd have "Suc (length (filter (\<lambda>c. c = tab) (snd (strtok s)))) = length (filter (\<lambda>c. c = tab) r)"
    by simp
  also have "\<dots> \<le> length (filter (\<lambda>c. c = tab) s1)"
    unfolding r_def by (rule filter_dropWhile_le)
  also have "\<dots> \<le> length (filter (\<lambda>c. c = tab) s)"
    unfolding s1_def by (rule filter_dropWhile_le)
  finally show ?thesis .
qed

lemma token_tabs: "token k s \<noteq> None \<Longrightarrow> k \<le> length (filter (\<lambda>c. c = tab) s)"
proof (induction k arbitrary: s)
  case 0
  show ?case by simp
next
  case (Suc k)
  then have t: "token k (snd (strtok s)) \<noteq> None" by simp
  then have "snd (strtok s) \<noteq> []" using token_Nil by metis
  from strtok_tabs [OF this] Suc.IH [OF t] show ?case by simp
qed

lemma scan_None: "scan m None ps j = Inr r \<Longrightarrow> r < 0"
  by (cases ps) (auto simp: then_do_Inr_iff split: if_splits)

lemma before_after_state_code_token:
  assumes sc: "state_code_token (m, ns) tok = Inr (m1, Addr a)" and a: "a < length (heap m1)"
  obtains c where "tok = Some c"
    "sum_temperature (heap m1 ! a) = sum_temperature (before m a c)"
    "max_temperature (heap m1 ! a) = max_temperature (before m a c)"
    "min_temperature (heap m1 ! a) = min_temperature (before m a c)"
    "max_temp_date (heap m1 ! a) = max_temp_date (before m a c)"
    "min_temp_date (heap m1 ! a) = min_temp_date (before m a c)"
proof -
  from state_code_token_Inr [OF sc] show ?thesis
  proof (elim disjE exE conjE)
    fix i a0
    assume f: "findStateIndex m tok = Inr i" and "0 \<le> i"
      and s: "states m ! nat i = Addr a0" "nat i < length (states m)" "a0 < length (heap m)"
      and m1: "m1 = m\<lparr>heap := (heap m)[a0 := (heap m ! a0)\<lparr>num_records := num_records (heap m ! a0) + 1\<rparr>]\<rparr>"
    have "tok \<noteq> None"
    proof
      assume "tok = None"
      with f have "scan m None (states m) 0 = Inr i" by (simp add: findStateIndex_def)
      from scan_None [OF this] \<open>0 \<le> i\<close> show False by simp
    qed
    then obtain c where c: "tok = Some c" by auto
    from a m1 have "a < length (heap m)" by simp
    with m1 c s(3) show ?thesis
      by (intro that [of c]) (auto simp: before_def nth_list_update)
  next
    fix r c
    assume c: "tok = Some c"
      and m1: "m1 = m\<lparr>heap := heap m @ [(new_climate_info c)\<lparr>num_records := 1\<rparr>],
                      states := (states m)[nat (if r = - 50 then 0 else - r) := Addr (length (heap m))]\<rparr>"
      and "Addr a = Addr (length (heap m))"
    then show ?thesis
      by (intro that [of c]) (auto simp: before_def new_climate_info_def)
  qed
qed

lemma analyze_line_target:
  assumes "analyze_line (m, ns) line = Inr (m', ns')"
  obtains c a s1 ms s8 k where
    "token 0 line = Some c" "token 1 line = Some s1" "atol s1 = Inr ms"
    "token 8 line = Some s8" "atof s8 = Inr k"
    "ns' = Addr a" "a < length (heap m')"
    "sum_temperature (heap m' ! a) = ld_add (sum_temperature (before m a c)) (fahrenheit k)"
    "max_temperature (heap m' ! a) =
       (if max_temperature (before m a c) < fahrenheit k then to_double (fahrenheit k)
        else max_temperature (before m a c))"
    "max_temp_date (heap m' ! a) =
       (if max_temperature (before m a c) < fahrenheit k then Some (ms sdiv 1000)
        else max_temp_date (before m a c))"
    "min_temperature (heap m' ! a) =
       (if fahrenheit k < min_temperature (before m a c) then to_double (fahrenheit k)
        else min_temperature (before m a c))"
    "min_temp_date (heap m' ! a) =
       (if fahrenheit k < min_temperature (before m a c) then Some (ms sdiv 1000)
        else min_temp_date (before m a c))"
proof -
  from assms obtain m1 a s1 ms h n_s cl n_l s8 k where
    sc: "state_code_token (m, ns) (token 0 line) = Inr (m1, ns')" and
    a: "ns' = Addr a" "a < length (heap m1)" and
    t1: "token 1 line = Some s1" "atol s1 = Inr ms" and
    t8: "token 8 line = Some s8" "atof s8 = Inr k" and
    m': "m' = m1\<lparr>heap := (heap m1)[a := fold_temperature (fahrenheit k) (ms sdiv 1000)
        ((heap m1 ! a)\<lparr>sum_humidity := h, num_snowcover := n_s,
                        sum_cloudcover := cl, num_lightning := n_l\<rparr>)]\<rparr>"
    by (rule analyze_line_Inr) blast
  from sc a obtain c where c: "token 0 line = Some c"
    "sum_temperature (heap m1 ! a) = sum_temperature (before m a c)"
    "max_temperature (heap m1 ! a) = max_temperature (before m a c)"
    "min_temperature (heap m1 ! a) = min_temperature (before m a c)"
    "max_temp_date (heap m1 ! a) = max_temp_date (before m a c)"
    "min_temp_date (heap m1 ! a) = min_temp_date (before m a c)"
    by (auto elim: before_after_state_code_token)
  have len: "a < length (heap m')" using a(2) by (simp add: m')
  have v: "heap m' ! a = fold_temperature (fahrenheit k) (ms sdiv 1000)
        ((heap m1 ! a)\<lparr>sum_humidity := h, num_snowcover := n_s,
                        sum_cloudcover := cl, num_lightning := n_l\<rparr>)"
    using a(2) by (simp add: m')
  show ?thesis
    using c(1) t1 t8 a(1) len
  proof (rule that)
    show "sum_temperature (heap m' ! a) = ld_add (sum_temperature (before m a c)) (fahrenheit k)"
      by (simp add: v fold_temperature_def Let_def flip: c(2))
    show "max_temperature (heap m' ! a) =
       (if max_temperature (before m a c) < fahrenheit k then to_double (fahrenheit k)
        else max_temperature (before m a c))"
      by (simp add: v fold_temperature_def Let_def flip: c(3))
    show "max_temp_date (heap m' ! a) =
       (if max_temperature (before m a c) < fahrenheit k then Some (ms sdiv 1000)
        else max_temp_date (before m a c))"
      by (simp add: v fold_temperature_def Let_def flip: c(3) c(5))
    show "min_temperature (heap m' ! a) =
       (if fahrenheit k < min_temperature (before m a c) then to_double (fahrenheit k)
        else min_temperature (before m a c))"
      by (simp add: v fold_temperature_def Let_def flip: c(4))
    show "min_temp_date (heap m' ! a) =
       (if fahrenheit k < min_temperature (before m a c) then Some (ms sdiv 1000)
        else min_temp_date (before m a c))"
      by (simp add: v fold_temperature_def Let_def flip: c(4) c(6))
  qed
qed

section \<open>The extrema through a run\<close>

lemma extrema_ok_fold_temperature:
  assumes "extrema_ok v \<or> (max_temperature v = - 1000 \<and> min_temperature v = 1000)"
  shows "extrema_ok (fold_temperature t ts v)"
proof -
  have r1000: "representable 53 1000" "representable 53 (- 1000)"
    using representable_of_int [of 1000 53] representable_of_int [of "- 1000" 53] by simp_all
  have rt: "representable 53 (to_double t)"
    by (simp add: to_double_def representable_round_to)
  have ge: "x \<le> to_double t" if "representable 53 x" "x \<le> t" for x
    using that by (simp add: to_double_def round_to_ge)
  have le: "to_double t \<le> x" if "representable 53 x" "t \<le> x" for x
    using that by (simp add: to_double_def round_to_le)
  from assms show ?thesis
  proof
    assume ok: "extrema_ok v"
    then have "min_temperature v \<le> max_temperature v" "representable 53 (min_temperature v)"
      "representable 53 (max_temperature v)"
      by (simp_all add: extrema_ok_def)
    then show ?thesis
      using rt ge [of "min_temperature v"] le [of "max_temperature v"]
      by (auto simp: extrema_ok_def fold_temperature_def Let_def)
  next
    assume "max_temperature v = - 1000 \<and> min_temperature v = 1000"
    then show ?thesis
      using rt r1000 ge [of 1000] le [of "- 1000"] ge [of "- 1000"] le [of 1000]
      by (auto simp: extrema_ok_def fold_temperature_def Let_def)
  qed
qed

lemma analyze_line_extrema:
  assumes inv: "list_all extrema_ok (heap m)"
    and run: "analyze_line (m, ns) line = Inr (m', ns')"
  shows "list_all extrema_ok (heap m')"
proof -
  from run obtain m1 a h n_s cl n_l k ts where
    sc: "state_code_token (m, ns) (token 0 line) = Inr (m1, ns')" and
    a: "ns' = Addr a" "a < length (heap m1)" and
    m': "m' = m1\<lparr>heap := (heap m1)[a := fold_temperature (fahrenheit k) ts
        ((heap m1 ! a)\<lparr>sum_humidity := h, num_snowcover := n_s,
                        sum_cloudcover := cl, num_lightning := n_l\<rparr>)]\<rparr>"
    by (rule analyze_line_Inr) blast
  have pre: "\<forall>i < length (heap m1). extrema_ok (heap m1 ! i)
      \<or> (i = a \<and> max_temperature (heap m1 ! i) = - 1000 \<and> min_temperature (heap m1 ! i) = 1000)"
    using state_code_token_Inr [OF sc] inv a
    by (auto simp: list_all_length nth_list_update nth_append new_climate_info_def extrema_ok_def
        split: if_splits)
  show ?thesis
    unfolding list_all_length
  proof (intro allI impI)
    fix i assume "i < length (heap m')"
    then have i: "i < length (heap m1)" by (simp add: m')
    show "extrema_ok (heap m' ! i)"
    proof (cases "i = a")
      case True
      have "extrema_ok (fold_temperature (fahrenheit k) ts
        ((heap m1 ! a)\<lparr>sum_humidity := h, num_snowcover := n_s,
                        sum_cloudcover := cl, num_lightning := n_l\<rparr>))"
        using pre a(2) by (intro extrema_ok_fold_temperature) (auto simp: extrema_ok_def)
      with True a(2) show ?thesis by (simp add: m')
    next
      case False
      with pre i show ?thesis by (auto simp: m')
    qed
  qed
qed

lemma analyze_lines_extrema:
  "list_all extrema_ok (heap m) \<Longrightarrow> analyze_lines ls (m, ns) = Inr (m', ns')
     \<Longrightarrow> list_all extrema_ok (heap m')"
proof (induction ls arbitrary: m ns)
  case Nil
  then show ?case by simp
next
  case (Cons l ls)
  from Cons.prems(2) obtain m1 ns1 where
    "analyze_line (m, ns) l = Inr (m1, ns1)" "analyze_lines ls (m1, ns1) = Inr (m', ns')"
    by (auto simp: then_do_Inr_iff)
  with Cons.IH Cons.prems(1) analyze_line_extrema show ?case by blast
qed

lemma analyze_file_extrema:
  "list_all extrema_ok (heap m) \<Longrightarrow> analyze_file f m = Inr m' \<Longrightarrow> list_all extrema_ok (heap m')"
  by (auto simp: analyze_file_def then_do_Inr_iff dest: analyze_lines_extrema)

lemma analyze_files_extrema:
  "list_all extrema_ok (heap m) \<Longrightarrow> analyze_files fs m = Inr m' \<Longrightarrow> list_all extrema_ok (heap m')"
proof (induction fs m rule: analyze_files.induct)
  case (1 m)
  then show ?case by simp
next
  case (2 fs m)
  then show ?case by simp
next
  case (3 f fs m)
  from "3.prems"(2) obtain m1 where
    "analyze_file f m = Inr m1" "analyze_files fs m1 = Inr m'"
    by (auto simp: then_do_Inr_iff)
  with "3.IH" "3.prems"(1) analyze_file_extrema show ?case by blast
qed

lemma lookup_in_heap: "lookup m c = Some v \<Longrightarrow> v \<in> set (heap m)"
  by (auto simp: lookup_def load_def split: sum.splits if_splits pointer.splits)

lemma Inr_of_not_isl: "\<not> isl x \<Longrightarrow> \<exists>y. x = Inr y"
  by (cases x) auto

section \<open>The fold goes to the struct allocated last\<close>

text \<open>
  C1. The claim: every record is folded into the struct of its own state code (its
  humidity, cloud cover and temperature into that struct's sums, its extrema and flag
  counters likewise) and never into another state's. The program increments
  \<open>num_records\<close> through \<open>states[state_index]\<close>, but every other update goes through
  \<open>new_state\<close>, the struct allocated last. On a file with a record for CA, one for TX
  and a second one for CA, the second CA record (humidity 50, cloud cover 60) is counted
  for CA and summed into TX: CA keeps the sums 10 and 20 of its first record, TX ends
  with 30 + 50 and 40 + 60 from one record of its own.
\<close>

theorem second_record_of_a_state_is_summed_into_another:
  "case run [Some (tdv [''CA'', ''1000'', ''9q'', ''10'', ''0'', ''20'', ''0'', ''100'', ''300''] @
                   tdv [''TX'', ''2000'', ''9v'', ''30'', ''0'', ''40'', ''0'', ''100'', ''310''] @
                   tdv [''CA'', ''3000'', ''9q'', ''50'', ''0'', ''60'', ''0'', ''100'', ''320''])] of
     Inl e \<Rightarrow> False
   | Inr m \<Rightarrow>
       map_option (\<lambda>v. (num_records v, sum_humidity v, sum_cloudcover v)) (lookup m ''CA'')
         = Some (2, 10, 20)
     \<and> map_option (\<lambda>v. (num_records v, sum_humidity v, sum_cloudcover v)) (lookup m ''TX'')
         = Some (1, 80, 100)"
  by (simp add: eval cong: then_do_weak_cong)

section \<open>Ties between extrema\<close>

text \<open>
  C6. The claim: of two records of one state with equal Fahrenheit temperature, the second
  changes neither extremum nor its timestamp. The comparisons of the program are strict,
  but they compare the \<open>long double\<close> temperature with an extremum stored as \<open>double\<close>:
  the stored maximum is the temperature rounded to 53 bits, and when that rounding went
  down, the same temperature is strictly greater than the stored maximum. Two CA records
  at 277.58716 Kelvin, at 1000 ms and 2000 ms: the maximum's timestamp ends as 2, the
  second record's, while the minimum's stays 1.
\<close>

theorem equal_temperature_moves_the_timestamp_of_the_maximum:
  "case run [Some (tdv [''CA'', ''1000'', ''9q'', ''10'', ''0'', ''20'', ''0'', ''100'', ''277.58716''] @
                   tdv [''CA'', ''2000'', ''9q'', ''10'', ''0'', ''20'', ''0'', ''100'', ''277.58716''])] of
     Inl e \<Rightarrow> False
   | Inr m \<Rightarrow> map_option (\<lambda>v. (max_temp_date v, min_temp_date v)) (lookup m ''CA'')
               = Some (Some 2, Some 1)"
  by (simp add: eval cong: then_do_weak_cong)

section \<open>Splitting a file\<close>

text \<open>
  C7. The claim: a file split in two at a line boundary gives the same final table as the
  file in one piece. \<open>new_state\<close> is a local variable of \<open>analyze_file\<close> without
  initialiser, assigned only when a struct is allocated. A file of two CA records runs to
  completion; split after the first record, the second call of \<open>analyze_file\<close> finds CA
  in the table, allocates nothing and dereferences the uninitialised \<open>new_state\<close>.
\<close>

theorem split_file_reads_uninitialised_pointer:
  "\<not> isl (run [Some (tdv [''CA'', ''1000'', ''9q'', ''10'', ''0'', ''20'', ''0'', ''100'', ''300''] @
                   tdv [''CA'', ''2000'', ''9q'', ''10'', ''0'', ''20'', ''0'', ''100'', ''310''])])
   \<and> run [Some (tdv [''CA'', ''1000'', ''9q'', ''10'', ''0'', ''20'', ''0'', ''100'', ''300'']),
           Some (tdv [''CA'', ''2000'', ''9q'', ''10'', ''0'', ''20'', ''0'', ''100'', ''310''])]
       = Inl Uninitialised"
  by (simp add: eval cong: then_do_weak_cong)

section \<open>Lines with fewer than nine fields\<close>

text \<open>
  C2. The claim: a line with fewer than 9 tab-separated fields is skipped, no struct
  changes and the next line is processed. The program has no field count: it resolves
  the state, increments \<open>num_records\<close> and reads on until \<open>strtok\<close> returns NULL, which
  it passes to \<open>atol\<close> or \<open>atof\<close>. What holds: for every table and every line with fewer
  than 8 tabs (so fewer than 9 fields), the turn of the loop for that line ends in a
  fault, and so does the loop on any stream that continues after it: no later line is
  processed.
\<close>

theorem short_line_faults:
  assumes "length (filter (\<lambda>c. c = tab) line) < 8"
  shows "isl (analyze_line (m, new_state) line)
       \<and> isl (analyze_lines (line # rest) (m, new_state))"
proof -
  have "token 8 line = None"
  proof (rule ccontr)
    assume "token 8 line \<noteq> None"
    from token_tabs [OF this] assms show False by simp
  qed
  then have "analyze_line (m, new_state) line \<noteq> Inr (m', ns')" for m' ns'
    by (auto elim: analyze_line_Inr)
  then have "isl (analyze_line (m, new_state) line)"
    by (cases "analyze_line (m, new_state) line") auto
  then show ?thesis
    by (cases "analyze_line (m, new_state) line") auto
qed

theorem short_line_faults_witness:
  "length (filter (\<lambda>c. c = tab) (tdv [''CA'', ''1000'', ''9q'', ''10'', ''0''])) < 8
   \<and> isl (analyze_line (initial_memory, Uninit) (tdv [''CA'', ''1000'', ''9q'', ''10'', ''0'']))
   \<and> isl (analyze_lines
        [tdv [''CA'', ''1000'', ''9q'', ''10'', ''0''],
         tdv [''CA'', ''3000'', ''9q'', ''50'', ''0'', ''60'', ''0'', ''100'', ''320'']]
        (initial_memory, Uninit))"
proof -
  have h: "length (filter (\<lambda>c. c = tab) (tdv [''CA'', ''1000'', ''9q'', ''10'', ''0''])) < 8"
    by (simp add: tdv_def tab_def newline_def)
  from short_line_faults [OF h] h show ?thesis by blast
qed

theorem short_line_is_not_skipped:
  "run [Some (tdv [''CA'', ''1000'', ''9q'', ''10'', ''0''] @
              tdv [''CA'', ''3000'', ''9q'', ''50'', ''0'', ''60'', ''0'', ''100'', ''320''])]
     = Inl NullDeref
   \<and> \<not> isl (run [Some (tdv [''CA'', ''3000'', ''9q'', ''50'', ''0'', ''60'', ''0'', ''100'', ''320''])])"
  by (simp add: eval cong: then_do_weak_cong)

section \<open>Maximum and minimum\<close>

text \<open>
  C3. For every struct of the table at the end of a run, once its \<open>num_records\<close> is at
  least 1, its maximum temperature is not below its minimum temperature (every
  temperature folded lying strictly between the sentinels - 1000 and 1000).
\<close>

theorem extrema_ordered:
  assumes "run files = Inr m"
    and "list_all temperate (file_lines files)"
    and "lookup m c = Some v"
    and "1 \<le> unat (num_records v)"
  shows "min_temperature v \<le> max_temperature v"
proof -
  have "list_all extrema_ok (heap initial_memory)"
    by (simp add: initial_memory_def)
  with assms(1) have "list_all extrema_ok (heap m)"
    unfolding run_def by (rule analyze_files_extrema [rotated])
  with lookup_in_heap [OF assms(3)] show ?thesis
    by (simp add: list_all_iff extrema_ok_def)
qed

theorem extrema_ordered_witness:
  "list_all temperate (file_lines
     [Some (tdv [''CA'', ''1000'', ''9q'', ''10'', ''0'', ''20'', ''0'', ''100'', ''300''] @
            tdv [''CA'', ''2000'', ''9q'', ''10'', ''0'', ''20'', ''0'', ''100'', ''310''])])
   \<and> (case run
         [Some (tdv [''CA'', ''1000'', ''9q'', ''10'', ''0'', ''20'', ''0'', ''100'', ''300''] @
                tdv [''CA'', ''2000'', ''9q'', ''10'', ''0'', ''20'', ''0'', ''100'', ''310''])] of
        Inl e \<Rightarrow> False
      | Inr m \<Rightarrow> (case lookup m ''CA'' of
          None \<Rightarrow> False
        | Some v \<Rightarrow> 1 \<le> unat (num_records v) \<and> min_temperature v \<le> max_temperature v))"
proof -
  let ?F = "[Some (tdv [''CA'', ''1000'', ''9q'', ''10'', ''0'', ''20'', ''0'', ''100'', ''300''] @
                   tdv [''CA'', ''2000'', ''9q'', ''10'', ''0'', ''20'', ''0'', ''100'', ''310''])]"
  have t: "list_all temperate (file_lines ?F)"
    by (simp add: eval cong: then_do_weak_cong)
  have "case run ?F of Inl e \<Rightarrow> False
     | Inr m \<Rightarrow> (case lookup m ''CA'' of None \<Rightarrow> False | Some v \<Rightarrow> 1 \<le> unat (num_records v))"
    by (simp add: eval cong: then_do_weak_cong)
  then obtain m v where r: "run ?F = Inr m" "lookup m ''CA'' = Some v" "1 \<le> unat (num_records v)"
    by (auto split: sum.splits option.splits)
  from extrema_ordered [OF r(1) t r(2) r(3)] t r show ?thesis by simp
qed

section \<open>Kelvin to Fahrenheit\<close>

text \<open>
  C4. The claim: every temperature is converted by the one formula
  \<open>kelvin * 1.8 - 459.67\<close>, and 373.15 Kelvin gives exactly 212.0 Fahrenheit. The first
  half holds. The second holds for real numbers only: the program computes the formula
  in binary floating point, where neither 373.15 nor 1.8 nor 459.67 is a value, and the
  result for the input 373.15 is 725 / 2 ^ 54 below 212. What holds: every turn of the
  loop that completes adds \<open>fahrenheit k\<close> to \<open>sum_temperature\<close> of the struct
  \<open>new_state\<close> points to, \<open>k\<close> being \<open>atof\<close> of the ninth token and \<open>fahrenheit\<close> the
  one expression of line 263 in \<open>long double\<close> arithmetic; for the \<open>double\<close> nearest
  373.15 the result is within 1 / 10 ^ 13 of 212.
\<close>

theorem temperature_conversion:
  assumes "analyze_line (m, ns) line = Inr (m', ns')"
  shows "\<exists>c s k a. token 0 line = Some c \<and> token 8 line = Some s \<and> atof s = Inr k
     \<and> ns' = Addr a \<and> a < length (heap m')
     \<and> sum_temperature (heap m' ! a) = ld_add (sum_temperature (before m a c)) (fahrenheit k)
     \<and> fahrenheit k = ld_sub (ld_mul k (to_double (9 / 5))) (to_double (45967 / 100))
     \<and> (k = to_double (37315 / 100) \<longrightarrow> \<bar>fahrenheit k - 212\<bar> < 1 / 10 ^ 13)"
proof -
  have "\<bar>fahrenheit (to_double (37315 / 100)) - 212\<bar> < 1 / 10 ^ 13"
    by (simp add: fahrenheit_def float_eval Let_def)
  with assms show ?thesis
    by (elim analyze_line_target) (auto simp: fahrenheit_def)
qed

theorem temperature_conversion_witness:
  "atof (''373.15'' @ [newline]) = Inr (to_double (37315 / 100))
   \<and> (case analyze_line (initial_memory, Uninit)
         (tdv [''CA'', ''1000'', ''9q'', ''10'', ''0'', ''20'', ''0'', ''100'', ''373.15'']) of
        Inl e \<Rightarrow> False
      | Inr (m', ns') \<Rightarrow>
          (\<exists>a. ns' = Addr a \<and> a < length (heap m')
             \<and> sum_temperature (heap m' ! a)
                 = ld_add (sum_temperature (before initial_memory a ''CA''))
                     (fahrenheit (to_double (37315 / 100)))
             \<and> \<bar>fahrenheit (to_double (37315 / 100)) - 212\<bar> < 1 / 10 ^ 13))"
proof -
  let ?L = "tdv [''CA'', ''1000'', ''9q'', ''10'', ''0'', ''20'', ''0'', ''100'', ''373.15'']"
  have k: "atof (''373.15'' @ [newline]) = Inr (to_double (37315 / 100))"
    by (simp add: libc_eval Let_def)
  have tok: "token 0 ?L = Some ''CA''" "token 8 ?L = Some (''373.15'' @ [newline])"
    by (simp_all add: libc_eval tdv_def Let_def token_numeral)
  have "\<not> isl (analyze_line (initial_memory, Uninit) ?L)"
    by (simp add: eval cong: then_do_weak_cong)
  then obtain m' ns' where eq: "analyze_line (initial_memory, Uninit) ?L = Inr (m', ns')"
    by (metis Inr_of_not_isl surj_pair)
  from temperature_conversion [OF eq] k tok show ?thesis
    by (auto simp: eq)
qed

theorem kelvin_373_15_is_not_212:
  "atof ''373.15'' = Inr (to_double (37315 / 100))
   \<and> fahrenheit (to_double (37315 / 100)) \<noteq> 212
   \<and> (case run [Some (tdv [''CA'', ''1000'', ''9q'', ''10'', ''0'', ''20'', ''0'', ''100'', ''373.15''])] of
        Inl e \<Rightarrow> False
      | Inr m \<Rightarrow> (case lookup m ''CA'' of
          None \<Rightarrow> False
        | Some v \<Rightarrow> sum_temperature v \<noteq> 212 \<and> max_temperature v \<noteq> 212))"
  by (simp add: eval cong: then_do_weak_cong)

section \<open>Timestamps\<close>

text \<open>
  C5. For every record, the timestamp stored with an extremum is the millisecond
  timestamp of the record divided by 1000, the quotient truncated towards zero (for a
  timestamp that is not negative, the floor of the quotient): a turn of the loop that
  completes leaves each of the two dates of the struct it folds into either as it was
  or, when the extremum moves, as \<open>sgn ms * (\<bar>ms\<bar> div 1000)\<close>, \<open>ms\<close> being \<open>atol\<close> of
  the second token.
\<close>

theorem timestamp_truncated:
  assumes "analyze_line (m, ns) line = Inr (m', ns')"
  shows "\<exists>c s ms s8 k a. token 0 line = Some c \<and> token 1 line = Some s \<and> atol s = Inr ms
     \<and> token 8 line = Some s8 \<and> atof s8 = Inr k \<and> ns' = Addr a \<and> a < length (heap m')
     \<and> max_temp_date (heap m' ! a) =
         (if max_temperature (before m a c) < fahrenheit k then Some (sgn ms * (\<bar>ms\<bar> div 1000))
          else max_temp_date (before m a c))
     \<and> min_temp_date (heap m' ! a) =
         (if fahrenheit k < min_temperature (before m a c) then Some (sgn ms * (\<bar>ms\<bar> div 1000))
          else min_temp_date (before m a c))
     \<and> (0 \<le> ms \<longrightarrow> sgn ms * (\<bar>ms\<bar> div 1000) = ms div 1000)"
proof -
  have sd: "ms sdiv 1000 = sgn ms * (\<bar>ms\<bar> div 1000)" for ms :: int
    by (simp add: signed_divide_int_def)
  have fl: "sgn ms * (\<bar>ms\<bar> div 1000) = ms div 1000" if "0 \<le> ms" for ms :: int
    using that by (cases "ms = 0") (simp_all add: sgn_if)
  from assms obtain c a s1 ms s8 k where
    "token 0 line = Some c" "token 1 line = Some s1" "atol s1 = Inr ms"
    "token 8 line = Some s8" "atof s8 = Inr k" "ns' = Addr a" "a < length (heap m')"
    "max_temp_date (heap m' ! a) =
       (if max_temperature (before m a c) < fahrenheit k then Some (ms sdiv 1000)
        else max_temp_date (before m a c))"
    "min_temp_date (heap m' ! a) =
       (if fahrenheit k < min_temperature (before m a c) then Some (ms sdiv 1000)
        else min_temp_date (before m a c))"
    by (rule analyze_line_target)
  then show ?thesis
    unfolding sd using fl [of ms] by blast
qed

theorem timestamp_truncated_witness:
  "atol ''1428300000999'' = Inr 1428300000999
   \<and> (case analyze_line (initial_memory, Uninit)
         (tdv [''CA'', ''1428300000999'', ''9q'', ''10'', ''0'', ''20'', ''0'', ''100'', ''300'']) of
        Inl e \<Rightarrow> False
      | Inr (m', ns') \<Rightarrow>
          (\<exists>a. ns' = Addr a \<and> a < length (heap m')
             \<and> max_temp_date (heap m' ! a) = Some 1428300000
             \<and> min_temp_date (heap m' ! a) = Some 1428300000))"
proof -
  let ?L = "tdv [''CA'', ''1428300000999'', ''9q'', ''10'', ''0'', ''20'', ''0'', ''100'', ''300'']"
  have ms: "atol ''1428300000999'' = Inr 1428300000999"
    by (simp add: libc_eval Let_def)
  have k: "atof (''300'' @ [newline]) = Inr 300"
    by (simp add: libc_eval float_eval Let_def)
  have tok: "token 0 ?L = Some ''CA''" "token 1 ?L = Some ''1428300000999''"
    "token 8 ?L = Some (''300'' @ [newline])"
    by (simp_all add: libc_eval tdv_def Let_def token_numeral)
  have f: "- 1000 < fahrenheit 300" "fahrenheit 300 < 1000"
    by (simp_all add: fahrenheit_def float_eval Let_def)
  have b: "max_temperature (before initial_memory a ''CA'') = - 1000"
    "min_temperature (before initial_memory a ''CA'') = 1000" for a
    by (simp_all add: before_def initial_memory_def new_climate_info_def)
  have "\<not> isl (analyze_line (initial_memory, Uninit) ?L)"
    by (simp add: eval cong: then_do_weak_cong)
  then obtain m' ns' where eq: "analyze_line (initial_memory, Uninit) ?L = Inr (m', ns')"
    by (metis Inr_of_not_isl surj_pair)
  from timestamp_truncated [OF eq] ms k tok f b show ?thesis
    by (auto simp: eq)
qed

section \<open>The first record of a state\<close>

text \<open>
  C10. The claim: right after a struct is created and its creating record folded, both
  extrema equal the record's Fahrenheit temperature and both dates its truncated
  timestamp (the temperature lying strictly between - 1000 and 1000). The dates are as
  claimed. The extrema are \<open>double\<close> fields and receive the \<open>long double\<close> temperature
  rounded to 53 bits, which for most inputs is not the temperature that was compared
  and summed. What holds: both extrema equal \<open>to_double\<close> of the temperature.
\<close>

theorem first_record_sets_both_extrema:
  assumes "analyze_line (m, ns) line = Inr (m', ns')"
    and "findStateIndex m (token 0 line) = Inr r" and "r < 0"
    and "token 1 line = Some s1" and "atol s1 = Inr ms"
    and "token 8 line = Some s8" and "atof s8 = Inr k"
    and "- 1000 < fahrenheit k" and "fahrenheit k < 1000"
  shows "ns' = Addr (length (heap m)) \<and> length (heap m') = Suc (length (heap m))
     \<and> max_temperature (heap m' ! length (heap m)) = to_double (fahrenheit k)
     \<and> min_temperature (heap m' ! length (heap m)) = to_double (fahrenheit k)
     \<and> max_temp_date (heap m' ! length (heap m)) = Some (sgn ms * (\<bar>ms\<bar> div 1000))
     \<and> min_temp_date (heap m' ! length (heap m)) = Some (sgn ms * (\<bar>ms\<bar> div 1000))"
proof -
  have sd: "ms sdiv 1000 = sgn ms * (\<bar>ms\<bar> div 1000)"
    by (simp add: signed_divide_int_def)
  from assms(1) obtain m1 h n_s cl n_l where
    sc: "state_code_token (m, ns) (token 0 line) = Inr (m1, ns')" and
    m'': "\<And>a. ns' = Addr a \<Longrightarrow> m' = m1\<lparr>heap := (heap m1)[a := fold_temperature (fahrenheit k) (ms sdiv 1000)
        ((heap m1 ! a)\<lparr>sum_humidity := h, num_snowcover := n_s,
                        sum_cloudcover := cl, num_lightning := n_l\<rparr>)]\<rparr>"
    using assms(4-7) by (elim analyze_line_Inr) auto
  from state_code_token_Inr [OF sc] assms(2,3) obtain c i where
    m1: "m1 = m\<lparr>heap := heap m @ [(new_climate_info c)\<lparr>num_records := 1\<rparr>],
                 states := (states m)[i := Addr (length (heap m))]\<rparr>"
    and ns': "ns' = Addr (length (heap m))"
    by auto
  from m'' [OF ns'] assms(8,9) show ?thesis
    by (simp add: ns' m1 fold_temperature_def Let_def new_climate_info_def sd)
qed

theorem first_record_sets_both_extrema_witness:
  "findStateIndex initial_memory
     (token 0 (tdv [''CA'', ''1000'', ''9q'', ''10'', ''0'', ''20'', ''0'', ''100'', ''300''])) = Inr (- 50)
   \<and> token 1 (tdv [''CA'', ''1000'', ''9q'', ''10'', ''0'', ''20'', ''0'', ''100'', ''300'']) = Some ''1000''
   \<and> atol ''1000'' = Inr 1000
   \<and> token 8 (tdv [''CA'', ''1000'', ''9q'', ''10'', ''0'', ''20'', ''0'', ''100'', ''300''])
       = Some (''300'' @ [newline])
   \<and> atof (''300'' @ [newline]) = Inr 300
   \<and> - 1000 < fahrenheit 300 \<and> fahrenheit 300 < 1000
   \<and> (case analyze_line (initial_memory, Uninit)
         (tdv [''CA'', ''1000'', ''9q'', ''10'', ''0'', ''20'', ''0'', ''100'', ''300'']) of
        Inl e \<Rightarrow> False
      | Inr (m', ns') \<Rightarrow> ns' = Addr 0 \<and> length (heap m') = 1
          \<and> max_temperature (heap m' ! 0) = to_double (fahrenheit 300)
          \<and> min_temperature (heap m' ! 0) = to_double (fahrenheit 300)
          \<and> max_temp_date (heap m' ! 0) = Some 1
          \<and> min_temp_date (heap m' ! 0) = Some 1)"
proof -
  let ?L = "tdv [''CA'', ''1000'', ''9q'', ''10'', ''0'', ''20'', ''0'', ''100'', ''300'']"
  have tok: "token 0 ?L = Some ''CA''" "token 1 ?L = Some ''1000''"
    "token 8 ?L = Some (''300'' @ [newline])"
    by (simp_all add: libc_eval tdv_def Let_def token_numeral)
  have r: "findStateIndex initial_memory (token 0 ?L) = Inr (- 50)"
    by (simp add: tok findStateIndex_def initial_memory_def NUM_STATES_def replicate_numeral)
  have ms: "atol ''1000'' = Inr 1000"
    by (simp add: libc_eval Let_def)
  have k: "atof (''300'' @ [newline]) = Inr 300"
    by (simp add: libc_eval float_eval Let_def)
  have f: "- 1000 < fahrenheit 300" "fahrenheit 300 < 1000"
    by (simp_all add: fahrenheit_def float_eval Let_def)
  have "\<not> isl (analyze_line (initial_memory, Uninit) ?L)"
    by (simp add: eval cong: then_do_weak_cong)
  then obtain m' ns' where eq: "analyze_line (initial_memory, Uninit) ?L = Inr (m', ns')"
    by (metis Inr_of_not_isl surj_pair)
  have "heap initial_memory = []" by (simp add: initial_memory_def)
  with first_record_sets_both_extrema [OF eq r _ tok(2) ms tok(3) k f] r tok ms k f
  show ?thesis
    by (simp add: eq)
qed

theorem stored_extremum_is_rounded:
  "case run [Some (tdv [''CA'', ''1000'', ''9q'', ''10'', ''0'', ''20'', ''0'', ''100'', ''373.15''])] of
     Inl e \<Rightarrow> False
   | Inr m \<Rightarrow> (case lookup m ''CA'' of
       None \<Rightarrow> False
     | Some v \<Rightarrow> num_records v = 1
         \<and> sum_temperature v = fahrenheit (to_double (37315 / 100))
         \<and> max_temperature v \<noteq> fahrenheit (to_double (37315 / 100))
         \<and> min_temperature v \<noteq> fahrenheit (to_double (37315 / 100)))"
  by (simp add: eval cong: then_do_weak_cong)

section \<open>The table of pointers\<close>

lemma scan_free_slot:
  assumes "list_all (valid_pointer m) ps" and "Null \<in> set ps"
  shows "\<exists>r. scan m (Some c) ps i = Inr r \<and>
     ((0 \<le> r \<and> i \<le> nat r \<and> nat r < i + length ps
         \<and> (\<exists>a. ps ! (nat r - i) = Addr a \<and> a < length (heap m)))
      \<or> r = - 50
      \<or> (r < 0 \<and> i \<le> nat (- r) \<and> nat (- r) < i + length ps))"
  using assms
proof (induction ps arbitrary: i)
  case Nil
  then show ?case by simp
next
  case (Cons p ps)
  show ?case
  proof (cases p)
    case Uninit
    with Cons.prems show ?thesis by (simp add: valid_pointer_def)
  next
    case Null
    then show ?thesis by simp
  next
    case (Addr a)
    from Cons.prems have vp: "valid_pointer m p" and ps0: "list_all (valid_pointer m) ps"
      by simp_all
    from vp Addr have a: "a < length (heap m)" by (simp add: valid_pointer_def)
    from Cons.prems Addr ps0 have ps: "list_all (valid_pointer m) ps" "Null \<in> set ps"
      by simp_all
    show ?thesis
    proof (cases "code (heap m ! a) = c")
      case True
      with Addr a show ?thesis by (simp add: load_def)
    next
      case False
      from Cons.IH [OF ps, of "Suc i"] obtain r where
        r: "scan m (Some c) ps (Suc i) = Inr r" and
        d: "(0 \<le> r \<and> Suc i \<le> nat r \<and> nat r < Suc i + length ps
               \<and> (\<exists>a. ps ! (nat r - Suc i) = Addr a \<and> a < length (heap m)))
            \<or> r = - 50
            \<or> (r < 0 \<and> Suc i \<le> nat (- r) \<and> nat (- r) < Suc i + length ps)"
        by blast
      have s: "scan m (Some c) (p # ps) i = Inr r"
        using Addr a False r by (simp add: load_def)
      from d show ?thesis
      proof (elim disjE conjE exE)
        fix b
        assume "0 \<le> r" "Suc i \<le> nat r" "nat r < Suc i + length ps"
          "ps ! (nat r - Suc i) = Addr b" "b < length (heap m)"
        moreover from this have "nat r - i = Suc (nat r - Suc i)" by simp
        with \<open>ps ! (nat r - Suc i) = Addr b\<close> have "(p # ps) ! (nat r - i) = Addr b"
          by simp
        ultimately show ?thesis using s by auto
      next
        assume "r = - 50"
        with s show ?thesis by simp
      next
        assume "r < 0" "Suc i \<le> nat (- r)" "nat (- r) < Suc i + length ps"
        with s show ?thesis by auto
      qed
    qed
  qed
qed

lemma scan_full:
  assumes "list_all (valid_pointer m) ps" and "Null \<notin> set ps"
    and "\<not> list_ex (points_to_code m c) ps"
  shows "scan m (Some c) ps i = Inl OutOfBounds"
  using assms
proof (induction ps arbitrary: i)
  case Nil
  show ?case by simp
next
  case (Cons p ps)
  then show ?case
    by (cases p) (auto simp: valid_pointer_def points_to_code_def load_def)
qed

lemma get_or_create_succeeds:
  assumes v: "valid_memory m" and n: "Null \<in> set (states m)" and c: "length c \<le> 2"
  shows "\<not> isl (state_code_token (m, ns) (Some c))"
proof -
  from v have "list_all (valid_pointer m) (states m)" by (simp add: valid_memory_def)
  from scan_free_slot [OF this n, of c 0] obtain r where
    r: "findStateIndex m (Some c) = Inr r" and
    d: "(0 \<le> r \<and> nat r < length (states m)
           \<and> (\<exists>a. states m ! nat r = Addr a \<and> a < length (heap m)))
        \<or> r = - 50
        \<or> (r < 0 \<and> nat (- r) < length (states m))"
    by (auto simp: findStateIndex_def)
  from n have ne: "0 < length (states m)" by (cases "states m") auto
  from d show ?thesis
  proof (elim disjE conjE exE)
    fix a
    assume "0 \<le> r" "nat r < length (states m)" "states m ! nat r = Addr a" "a < length (heap m)"
    then show ?thesis
      by (simp add: state_code_token_def r modify_def load_def)
  next
    assume "r = - 50"
    with ne c show ?thesis
      by (simp add: state_code_token_def r modify_def load_def Let_def)
  next
    assume "r < 0" "nat (- r) < length (states m)"
    with ne c show ?thesis
      by (simp add: state_code_token_def r modify_def load_def Let_def)
  qed
qed

lemma full_table_overflows:
  assumes "valid_memory m" and "Null \<notin> set (states m)" and "\<not> known m c"
  shows "state_code_token (m, ns) (Some c) = Inl OutOfBounds"
proof -
  from assms have "findStateIndex m (Some c) = Inl OutOfBounds"
    unfolding findStateIndex_def by (intro scan_full) (simp_all add: valid_memory_def known_def)
  then show ?thesis by (simp add: state_code_token_def)
qed

lemma valid_pointer_heap_length:
  "length (heap m') = length (heap m) \<Longrightarrow> valid_pointer m' p = valid_pointer m p"
  by (simp add: valid_pointer_def split: pointer.splits)

lemma analyze_line_valid:
  assumes "valid_memory m" and "analyze_line (m, ns) l = Inr (m', ns')"
  shows "valid_memory m' \<and> length (states m') = length (states m)"
proof -
  from assms(2) obtain m1 a v where
    sc: "state_code_token (m, ns) (token 0 l) = Inr (m1, ns')" and
    m': "m' = m1\<lparr>heap := (heap m1)[a := v]\<rparr>"
    by (rule analyze_line_Inr) blast
  have "valid_memory m1 \<and> length (states m1) = length (states m)"
    using state_code_token_Inr [OF sc] assms(1)
    by (auto simp: valid_memory_def valid_pointer_def list_all_length nth_list_update
        split: pointer.splits if_splits)
  moreover have "valid_pointer m' p = valid_pointer m1 p" for p
    by (rule valid_pointer_heap_length) (simp add: m')
  ultimately show ?thesis by (simp add: m' valid_memory_def list_all_length)
qed

lemma analyze_lines_valid:
  "valid_memory m \<Longrightarrow> analyze_lines ls (m, ns) = Inr (m', ns')
     \<Longrightarrow> valid_memory m' \<and> length (states m') = length (states m)"
proof (induction ls arbitrary: m ns)
  case Nil
  then show ?case by simp
next
  case (Cons l ls)
  from Cons.prems(2) obtain m1 ns1 where
    "analyze_line (m, ns) l = Inr (m1, ns1)" "analyze_lines ls (m1, ns1) = Inr (m', ns')"
    by (auto simp: then_do_Inr_iff)
  with Cons.IH [of m1 ns1] analyze_line_valid [OF Cons.prems(1), of ns l m1 ns1] show ?case
    by simp
qed

lemma analyze_files_valid:
  "valid_memory m \<Longrightarrow> analyze_files fs m = Inr m'
     \<Longrightarrow> valid_memory m' \<and> length (states m') = length (states m)"
proof (induction fs m rule: analyze_files.induct)
  case (1 m)
  then show ?case by simp
next
  case (2 fs m)
  then show ?case by simp
next
  case (3 f fs m)
  from "3.prems"(2) obtain m1 ns1 where
    "analyze_lines (read_lines f) (m, Uninit) = Inr (m1, ns1)" "analyze_files fs m1 = Inr m'"
    by (auto simp: then_do_Inr_iff analyze_file_def)
  with "3.IH" [of m1] analyze_lines_valid [OF "3.prems"(1), of "read_lines f" Uninit m1 ns1]
  show ?case by simp
qed

section \<open>A file of pairwise distinct state codes\<close>

lemma read_lines_Nil: "read_lines [] = []"
  by (simp add: read_lines.simps fgets_def)

lemma read_lines_zero_record:
  "x \<noteq> newline \<Longrightarrow> y \<noteq> newline \<Longrightarrow>
     read_lines (zero_record [x, y] @ rest) = zero_record [x, y] # read_lines rest"
  by (subst read_lines.simps)
    (simp add: fgets_def zero_record_def tdv_def fgets_chars_numeral newline_def tab_def)

lemma tokens_zero_record:
  assumes "x \<noteq> tab" "y \<noteq> tab"
  shows "token 0 (zero_record [x, y]) = Some [x, y]"
    "token 1 (zero_record [x, y]) = Some ''0''"
    "token 3 (zero_record [x, y]) = Some ''0''"
    "token 4 (zero_record [x, y]) = Some ''0''"
    "token 5 (zero_record [x, y]) = Some ''0''"
    "token 6 (zero_record [x, y]) = Some ''0''"
    "token 8 (zero_record [x, y]) = Some (''0'' @ [newline])"
  using assms
  by (simp_all add: zero_record_def tdv_def strtok_def token_numeral tab_def newline_def Let_def)

lemma atof_zero: "atof ''0'' = Inr 0" "atof [CHR ''0'', CHR 0x0A] = Inr 0" "atol ''0'' = Inr 0"
  by (simp_all add: libc_eval float_eval Let_def)

lemma analyze_line_zero_record:
  assumes "x \<noteq> tab" "y \<noteq> tab"
  shows "analyze_line mn (zero_record [x, y]) =
     then_do (state_code_token mn (Some [x, y])) (\<lambda>(m1, new_state).
     then_do (humidity_token m1 new_state (Some ''0'')) (\<lambda>m2.
     then_do (snow_token m2 new_state (Some ''0'')) (\<lambda>m3.
     then_do (cloud_coverage_token m3 new_state (Some ''0'')) (\<lambda>m4.
     then_do (lightning_token m4 new_state (Some ''0'')) (\<lambda>m5.
     then_do (surface_temperature_token m5 new_state 0 (Some [CHR ''0'', CHR 0x0A])) (\<lambda>m6.
     Inr (m6, new_state)))))))"
  unfolding analyze_line_def tokens_zero_record [OF assms]
  by (simp add: timestamp_token_def atof_zero newline_def)

lemma fahrenheit_zero:
  "fahrenheit 0 = - (8086600159036703 / 17592186044416)"
  "ld_add 0 (- (8086600159036703 / 17592186044416)) = - (8086600159036703 / 17592186044416)"
  "to_double (- (8086600159036703 / 17592186044416)) = - (8086600159036703 / 17592186044416)"
  "ld_add 0 0 = 0" "ulong_to_ld 0 = 0" "ld_to_ulong 0 = Inr 0"
  by (simp_all add: fahrenheit_def float_eval Let_def)

lemma good_codeE:
  assumes "good_code c"
  obtains x y where "c = [x, y]" "x \<noteq> tab" "y \<noteq> tab" "x \<noteq> newline" "y \<noteq> newline"
proof -
  from assms have "length c = 2" by (simp add: good_code_def)
  then obtain x y where "c = [x, y]"
    by (cases c; cases "tl c") auto
  with assms that show ?thesis by (auto simp: good_code_def)
qed

lemma scan_miss:
  assumes "list_all (valid_pointer m) ps" and "Null \<notin> set ps"
    and "\<not> list_ex (points_to_code m c) ps"
  shows "scan m (Some c) (ps @ Null # qs) i
       = Inr (if i + length ps = 0 then - 50 else - int (i + length ps))"
  using assms
proof (induction ps arbitrary: i)
  case Nil
  show ?case by simp
next
  case (Cons p ps)
  then show ?case
    by (cases p) (auto simp: valid_pointer_def points_to_code_def load_def)
qed

lemma create_zero_record:
  assumes v: "valid_memory m" and st: "states m = ps @ Null # qs"
    and ps: "Null \<notin> set ps" "length ps < 50"
    and k: "\<not> known m c" and c: "good_code c"
  shows "\<exists>m'. analyze_line (m, ns) (zero_record c) = Inr (m', Addr (length (heap m)))
     \<and> valid_memory m' \<and> states m' = ps @ Addr (length (heap m)) # qs
     \<and> (\<forall>c'. known m' c' = (known m c' \<or> c' = c))"
proof -
  from c obtain x y where xy: "c = [x, y]" "x \<noteq> tab" "y \<noteq> tab"
    by (rule good_codeE)
  define n where "n = length (heap m)"
  from v st have vps: "list_all (valid_pointer m) ps" and vqs: "list_all (valid_pointer m) qs"
    by (simp_all add: valid_memory_def)
  from k st have nps: "\<not> list_ex (points_to_code m c) ps"
    by (simp add: known_def)
  define r :: int where "r = (if length ps = 0 then - 50 else - int (length ps))"
  have r: "findStateIndex m (Some c) = Inr r"
    using scan_miss [OF vps ps(1) nps, of qs 0] by (simp add: findStateIndex_def st r_def)
  have idx: "nat (if r = - 50 then 0 else r * - 1) = length ps" "r < 0"
    using ps(2) by (auto simp: r_def)
  define v0 where "v0 = (new_climate_info c)\<lparr>num_records := 1\<rparr>"
  define m1 where "m1 = \<lparr>heap = heap m @ [v0], states = ps @ Addr n # qs\<rparr>"
  from c have lc: "\<not> 2 < length c" by (simp add: good_code_def)
  have sc: "state_code_token (m, ns) (Some c) = Inr (m1, Addr n)"
    using idx lc
    by (simp add: state_code_token_def r Let_def st modify_def load_def list_update_length
        nth_append m1_def v0_def n_def new_climate_info_def)
  have step: "modify (\<lparr>heap = heap m @ [u], states = ps @ Addr n # qs\<rparr>) (Addr n) f
      = then_do (f u) (\<lambda>u'. Inr (\<lparr>heap = heap m @ [u'], states = ps @ Addr n # qs\<rparr>))" for u f
    by (simp add: modify_def load_def n_def)
  define vf where "vf = fold_temperature (fahrenheit 0) 0
      (v0\<lparr>sum_humidity := ld_add (sum_humidity v0) 0, num_snowcover := 0,
          sum_cloudcover := ld_add (sum_cloudcover v0) 0, num_lightning := 0\<rparr>)"
  have al: "analyze_line (m, ns) (zero_record c)
      = Inr (\<lparr>heap = heap m @ [vf], states = ps @ Addr n # qs\<rparr>, Addr n)"
    unfolding xy(1) analyze_line_zero_record [OF xy(2,3)] sc [unfolded xy(1)] vf_def
    by (simp add: humidity_token_def snow_token_def cloud_coverage_token_def lightning_token_def
        surface_temperature_token_def atof_zero m1_def step fahrenheit_zero v0_def
        new_climate_info_def)
  have code: "code vf = c"
    by (simp add: vf_def fold_temperature_def Let_def v0_def new_climate_info_def)
  define m' where "m' = \<lparr>heap = heap m @ [vf], states = ps @ Addr n # qs\<rparr>"
  have vp: "valid_pointer m' p" if "valid_pointer m p" for p
    using that by (cases p) (simp_all add: valid_pointer_def m'_def)
  have valid: "valid_memory m'"
    using vps vqs vp by (auto simp: valid_memory_def m'_def list_all_iff valid_pointer_def n_def)
  have pc: "points_to_code m' c' p = points_to_code m c' p" if "valid_pointer m p" for p c'
    using that by (cases p) (simp_all add: points_to_code_def valid_pointer_def m'_def nth_append)
  have kn: "known m' c' = (known m c' \<or> c' = c)" for c'
  proof -
    have "list_ex (points_to_code m' c') ps = list_ex (points_to_code m c') ps"
      using vps pc by (auto simp: list_ex_iff list_all_iff)
    moreover have "list_ex (points_to_code m' c') qs = list_ex (points_to_code m c') qs"
      using vqs pc by (auto simp: list_ex_iff list_all_iff)
    moreover have "points_to_code m' c' (Addr n) = (c' = c)"
      using code by (auto simp: points_to_code_def m'_def n_def)
    ultimately show ?thesis
      by (auto simp: known_def st m'_def points_to_code_def)
  qed
  from al valid kn show ?thesis
    unfolding m'_def n_def by auto
qed

lemma analyze_lines_append:
  "analyze_lines (xs @ ys) mn = then_do (analyze_lines xs mn) (analyze_lines ys)"
proof (induction xs arbitrary: mn)
  case Nil
  show ?case by simp
next
  case (Cons x xs)
  then show ?case by (cases "analyze_line mn x") simp_all
qed

lemma zero_records_fill:
  assumes "list_all good_code cs" and "distinct cs" and "length cs \<le> 50"
  shows "\<exists>m ns ps. analyze_lines (map zero_record cs) (initial_memory, Uninit) = Inr (m, ns)
     \<and> valid_memory m \<and> states m = ps @ replicate (50 - length cs) Null
     \<and> length ps = length cs \<and> Null \<notin> set ps \<and> (\<forall>c'. known m c' = (c' \<in> set cs))"
  using assms
proof (induction cs rule: rev_induct)
  case Nil
  have "valid_memory initial_memory"
    by (simp add: valid_memory_def valid_pointer_def initial_memory_def list_all_length)
  moreover have "\<not> known initial_memory c'" for c'
    by (simp add: known_def initial_memory_def list_ex_iff points_to_code_def)
  moreover have "states initial_memory = [] @ replicate (50 - length ([] :: string list)) Null"
    by (simp add: initial_memory_def NUM_STATES_def)
  ultimately show ?case by force
next
  case (snoc c cs)
  from snoc.prems have cs: "list_all good_code cs" "distinct cs" "length cs \<le> 50"
    and c: "good_code c" "c \<notin> set cs" and len: "length cs < 50"
    by simp_all
  from snoc.IH [OF cs] obtain m ns ps where
    run: "analyze_lines (map zero_record cs) (initial_memory, Uninit) = Inr (m, ns)" and
    v: "valid_memory m" and st: "states m = ps @ replicate (50 - length cs) Null" and
    ps: "length ps = length cs" "Null \<notin> set ps" and kn: "\<And>c'. known m c' = (c' \<in> set cs)"
    by blast
  from len have "replicate (50 - length cs) Null = Null # replicate (50 - Suc (length cs)) Null"
    by (metis Suc_diff_Suc replicate_Suc)
  with st have st': "states m = ps @ Null # replicate (50 - Suc (length cs)) Null" by simp
  from c(2) kn have nk: "\<not> known m c" by simp
  from len ps(1) have lps: "length ps < 50" by simp
  from create_zero_record [OF v st' ps(2) lps nk c(1), of ns] obtain m' where
    m': "analyze_line (m, ns) (zero_record c) = Inr (m', Addr (length (heap m)))"
    "valid_memory m'" "states m' = ps @ Addr (length (heap m)) # replicate (50 - Suc (length cs)) Null"
    "\<And>c'. known m' c' = (known m c' \<or> c' = c)"
    by blast
  have "analyze_lines (map zero_record (cs @ [c])) (initial_memory, Uninit)
      = Inr (m', Addr (length (heap m)))"
    by (simp add: analyze_lines_append run m'(1))
  moreover have "states m' = (ps @ [Addr (length (heap m))]) @ replicate (50 - length (cs @ [c])) Null"
    by (simp add: m'(3))
  moreover have "length (ps @ [Addr (length (heap m))]) = length (cs @ [c])"
    by (simp add: ps(1))
  moreover have "Null \<notin> set (ps @ [Addr (length (heap m))])"
    using ps(2) by simp
  moreover have "\<forall>c'. known m' c' = (c' \<in> set (cs @ [c]))"
    using m'(4) kn by auto
  ultimately show ?case using m'(2) by blast
qed

lemma zero_records_overflow:
  assumes "list_all good_code (cs @ [c])" and "distinct (cs @ [c])" and "length cs = 50"
  shows "analyze_lines (map zero_record (cs @ [c])) (initial_memory, Uninit) = Inl OutOfBounds"
proof -
  from assms have cs: "list_all good_code cs" "distinct cs" "length cs \<le> 50"
    and c: "good_code c" "c \<notin> set cs"
    by simp_all
  from zero_records_fill [OF cs] assms(3) obtain m ns where
    run: "analyze_lines (map zero_record cs) (initial_memory, Uninit) = Inr (m, ns)" and
    v: "valid_memory m" and full: "Null \<notin> set (states m)" and kn: "\<And>c'. known m c' = (c' \<in> set cs)"
    by auto
  from c(2) kn have "\<not> known m c" by simp
  from full_table_overflows [OF v full this]
  have sc: "state_code_token (m, ns) (Some c) = Inl OutOfBounds" .
  from c(1) obtain x y where xy: "c = [x, y]" "x \<noteq> tab" "y \<noteq> tab"
    by (rule good_codeE)
  have "analyze_line (m, ns) (zero_record c) = Inl OutOfBounds"
    unfolding xy(1) analyze_line_zero_record [OF xy(2,3)] sc [unfolded xy(1)] by simp
  then show ?thesis
    by (simp add: analyze_lines_append run)
qed

lemma read_lines_zero_records:
  "list_all good_code cs \<Longrightarrow> read_lines (concat (map zero_record cs)) = map zero_record cs"
proof (induction cs)
  case Nil
  show ?case by (simp add: read_lines_Nil)
next
  case (Cons c cs)
  then have "good_code c" by simp
  then obtain x y where "c = [x, y]" "x \<noteq> newline" "y \<noteq> newline"
    by (rule good_codeE)
  with Cons show ?case by (simp add: read_lines_zero_record)
qed

section \<open>The capacity of the table\<close>

text \<open>
  C8. The claim: the table takes an unbounded number of distinct state codes, get-or-create
  succeeds for each new code with no capacity ceiling, and the scan never reads past the
  populated entries. The table is the array \<open>states\<close> of \<open>NUM_STATES\<close> = 50 pointers that
  \<open>main\<close> declares, and nothing in the program grows it. What holds: after every run
  the table has 50 slots, and while one of them is empty the scan for any code ends inside
  the array and get-or-create succeeds for any code of at most two characters. A file
  with 50 distinct codes runs to its end; with a 51st distinct code the scan finds no
  empty slot and reads \<open>states[50]\<close>.
\<close>

theorem table_capacity:
  assumes "run files = Inr m" and "length c \<le> 2" and "Null \<in> set (states m)"
  shows "length (states m) = NUM_STATES
     \<and> \<not> isl (findStateIndex m (Some c))
     \<and> \<not> isl (state_code_token (m, new_state) (Some c))"
proof -
  have "valid_memory initial_memory"
    by (simp add: valid_memory_def valid_pointer_def initial_memory_def list_all_length)
  from analyze_files_valid [OF this assms(1) [unfolded run_def]]
  have v: "valid_memory m" and l: "length (states m) = NUM_STATES"
    by (simp_all add: initial_memory_def)
  from v have "list_all (valid_pointer m) (states m)" by (simp add: valid_memory_def)
  from scan_free_slot [OF this assms(3), of c 0]
  have "\<not> isl (findStateIndex m (Some c))" by (auto simp: findStateIndex_def)
  with l get_or_create_succeeds [OF v assms(3) assms(2)] show ?thesis by simp
qed

theorem table_capacity_witness:
  "length ''TX'' \<le> 2
   \<and> (case run [Some (tdv [''CA'', ''1000'', ''9q'', ''10'', ''0'', ''20'', ''0'', ''100'', ''300''])] of
        Inl e \<Rightarrow> False
      | Inr m \<Rightarrow> Null \<in> set (states m) \<and> length (states m) = NUM_STATES
          \<and> \<not> isl (findStateIndex m (Some ''TX''))
          \<and> \<not> isl (state_code_token (m, Uninit) (Some ''TX'')))"
proof -
  let ?F = "[Some (tdv [''CA'', ''1000'', ''9q'', ''10'', ''0'', ''20'', ''0'', ''100'', ''300''])]"
  have "case run ?F of Inl e \<Rightarrow> False | Inr m \<Rightarrow> Null \<in> set (states m)"
    by (simp add: eval cong: then_do_weak_cong)
  then obtain m where r: "run ?F = Inr m" "Null \<in> set (states m)"
    by (auto split: sum.splits)
  from table_capacity [OF r(1) _ r(2), of "''TX''" Uninit] r show ?thesis by simp
qed

theorem fifty_first_state_overflows:
  "run [Some (concat (map zero_record (take 51 codes)))] = Inl OutOfBounds
   \<and> \<not> isl (run [Some (concat (map zero_record (take 50 codes)))])"
proof -
  have g: "list_all good_code (take 51 codes)" "distinct (take 51 codes)"
    by (simp_all add: codes_def good_code_def tab_def newline_def)
  have split: "take 51 codes = take 50 codes @ [''FA'']" and len: "length (take 50 codes) = 50"
    by (simp_all add: codes_def)
  from g have g50: "list_all good_code (take 50 codes)" "distinct (take 50 codes)"
    by (simp_all add: split)
  have "analyze_lines (map zero_record (take 51 codes)) (initial_memory, Uninit) = Inl OutOfBounds"
    unfolding split by (rule zero_records_overflow) (use g len in \<open>simp_all add: split\<close>)
  then have a: "run [Some (concat (map zero_record (take 51 codes)))] = Inl OutOfBounds"
    by (simp add: run_def analyze_file_def read_lines_zero_records [OF g(1)])
  from zero_records_fill [OF g50] len obtain m ns where
    "analyze_lines (map zero_record (take 50 codes)) (initial_memory, Uninit) = Inr (m, ns)"
    by auto
  then have b: "\<not> isl (run [Some (concat (map zero_record (take 50 codes)))])"
    by (simp add: run_def analyze_file_def read_lines_zero_records [OF g50(1)])
  from a b show ?thesis ..
qed

section \<open>The flag counters\<close>










end
